theory Spec2Isabelle
  imports Main
begin

section \<open>Python strings\<close>

text \<open>
  A Python \<open>str\<close> is a sequence of Unicode code points and \<open>len\<close> counts code points,
  so a string is modelled as a list of code points (natural numbers).  Literals of the
  source are written \<open>lit ''...''\<close>; all of them are ASCII.
\<close>

type_synonym codepoint = nat
type_synonym pystr = "codepoint list"

definition lit :: "string \<Rightarrow> pystr" where
  "lit s = map of_char s"

text \<open>
  \<open>str.isspace\<close>, which is also the class \<open>\s\<close> of \<open>re\<close> on \<open>str\<close> patterns and the set
  that \<open>str.strip()\<close> removes: U+0009..U+000D, U+001C..U+001F, U+0020, U+0085, U+00A0,
  U+1680, U+2000..U+200A, U+2028, U+2029, U+202F, U+205F, U+3000.
\<close>

definition is_space :: "codepoint \<Rightarrow> bool" where
  "is_space c \<longleftrightarrow>
     (9 \<le> c \<and> c \<le> 13) \<or> (28 \<le> c \<and> c \<le> 31) \<or> c = 32 \<or> c = 133 \<or> c = 160 \<or>
     c = 5760 \<or> (8192 \<le> c \<and> c \<le> 8202) \<or> c = 8232 \<or> c = 8233 \<or> c = 8239 \<or>
     c = 8287 \<or> c = 12288"

text \<open>The class \<open>[\x00-\x08\x0B\x0C\x0E-\x1F\x7F]\<close> of \<open>_clean_text\<close>.\<close>

definition is_ctrl :: "codepoint \<Rightarrow> bool" where
  "is_ctrl c \<longleftrightarrow> c \<le> 8 \<or> c = 11 \<or> c = 12 \<or> (14 \<le> c \<and> c \<le> 31) \<or> c = 127"

text \<open>The class \<open>[ \t]\<close>.\<close>

definition is_blank :: "codepoint \<Rightarrow> bool" where
  "is_blank c \<longleftrightarrow> c = 32 \<or> c = 9"

text \<open>The newline \<open>\n\<close> (U+000A), and the classes \<open>.\<close> without and with \<open>re.DOTALL\<close>.\<close>

abbreviation (input) NL :: codepoint where
  "NL \<equiv> 10"

definition is_nl :: "codepoint \<Rightarrow> bool" where
  "is_nl c \<longleftrightarrow> c = NL"

definition not_nl :: "codepoint \<Rightarrow> bool" where
  "not_nl c \<longleftrightarrow> c \<noteq> NL"

definition any_cp :: "codepoint \<Rightarrow> bool" where
  "any_cp c \<longleftrightarrow> True"

definition is_cp :: "codepoint \<Rightarrow> codepoint \<Rightarrow> bool" where
  "is_cp x c \<longleftrightarrow> c = x"

text \<open>\<open>s.strip()\<close>: leading and trailing whitespace removed.\<close>

definition lstrip :: "pystr \<Rightarrow> pystr" where
  "lstrip s = dropWhile is_space s"

definition rstrip :: "pystr \<Rightarrow> pystr" where
  "rstrip s = rev (dropWhile is_space (rev s))"

definition strip :: "pystr \<Rightarrow> pystr" where
  "strip s = rstrip (lstrip s)"

text \<open>\<open>s.split('\n')\<close> (never empty: the empty string gives one empty line) and
  \<open>'\n'.join(lines)\<close>.\<close>

fun split_nl :: "pystr \<Rightarrow> pystr list" where
  "split_nl [] = [[]]"
| "split_nl (c # cs) =
     (if c = NL then [] # split_nl cs
      else (case split_nl cs of [] \<Rightarrow> [[c]] | l # ls \<Rightarrow> (c # l) # ls))"

fun join_nl :: "pystr list \<Rightarrow> pystr" where
  "join_nl [] = []"
| "join_nl [l] = l"
| "join_nl (l # ls) = l @ NL # join_nl ls"

section \<open>Regular expressions of the source, as backtracking matchers\<close>

text \<open>
  A matcher is given the text from the position where it is tried and returns the number of
  code points of the match that Python's backtracking engine finds first there, or \<open>None\<close>
  when no match starts at that position.  Each combinator takes the matcher of the rest of
  the pattern as its continuation \<open>k\<close>, so that a greedy quantifier gives up one code point
  at a time exactly when the rest of the pattern fails.
\<close>

type_synonym matcher = "pystr \<Rightarrow> nat option"

text \<open>End of the pattern.\<close>

definition m_end :: matcher where
  "m_end cs = Some 0"

text \<open>One code point of the class \<open>p\<close>.\<close>

fun m_chr :: "(codepoint \<Rightarrow> bool) \<Rightarrow> matcher \<Rightarrow> matcher" where
  "m_chr p k [] = None"
| "m_chr p k (c # cs) = (if p c then map_option Suc (k cs) else None)"

text \<open>Greedy \<open>p*\<close>: take one more code point first, fall back to the continuation.\<close>

fun m_star :: "(codepoint \<Rightarrow> bool) \<Rightarrow> matcher \<Rightarrow> matcher" where
  "m_star p k [] = k []"
| "m_star p k (c # cs) =
     (if p c then (case m_star p k cs of Some n \<Rightarrow> Some (Suc n) | None \<Rightarrow> k (c # cs))
      else k (c # cs))"

text \<open>Greedy \<open>p+\<close>.\<close>

definition m_plus :: "(codepoint \<Rightarrow> bool) \<Rightarrow> matcher \<Rightarrow> matcher" where
  "m_plus p k = m_chr p (m_star p k)"

text \<open>Greedy \<open>p{0,n}\<close>; \<open>p{1,4}\<close> is \<open>m_chr p (m_upto p 3 k)\<close>.\<close>

fun m_upto :: "(codepoint \<Rightarrow> bool) \<Rightarrow> nat \<Rightarrow> matcher \<Rightarrow> matcher" where
  "m_upto p 0 k cs = k cs"
| "m_upto p (Suc n) k [] = k []"
| "m_upto p (Suc n) k (c # cs) =
     (if p c then (case m_upto p n k cs of Some r \<Rightarrow> Some (Suc r) | None \<Rightarrow> k (c # cs))
      else k (c # cs))"

text \<open>Lazy \<open>p*?\<close>: try the continuation first, take one more code point when it fails.\<close>

fun m_lazy :: "(codepoint \<Rightarrow> bool) \<Rightarrow> matcher \<Rightarrow> matcher" where
  "m_lazy p k [] = k []"
| "m_lazy p k (c # cs) =
     (case k (c # cs) of Some n \<Rightarrow> Some n
      | None \<Rightarrow> (if p c then map_option Suc (m_lazy p k cs) else None))"

text \<open>A literal string.\<close>

fun m_str :: "pystr \<Rightarrow> matcher \<Rightarrow> matcher" where
  "m_str [] k = k"
| "m_str (x # xs) k = m_chr (is_cp x) (m_str xs k)"

text \<open>\<open>$\<close> without \<open>re.MULTILINE\<close>: the end of the string, or just before a newline that
  ends the string.\<close>

definition m_eos :: "matcher \<Rightarrow> matcher" where
  "m_eos k cs = (if cs = [] \<or> cs = [NL] then k cs else None)"

text \<open>\<open>re.match(pattern, s)\<close> as a truth value: a match at position 0.\<close>

definition re_match :: "matcher \<Rightarrow> pystr \<Rightarrow> bool" where
  "re_match m s \<longleftrightarrow> m s \<noteq> None"

text \<open>
  \<open>re.sub(pattern, repl, text)\<close> with a callable \<open>repl\<close> that receives the matched text
  (a constant replacement is a constant function): the text is scanned from the left; where
  a match starts, its replacement is emitted and the scan goes on after the match; elsewhere
  the code point is copied.  No pattern of the source matches the empty string
  (lemma \<open>patterns_consume\<close> below), so the branch for a match of length 0 is never taken; it
  copies the code point.
\<close>

function re_sub :: "matcher \<Rightarrow> (pystr \<Rightarrow> pystr) \<Rightarrow> pystr \<Rightarrow> pystr" where
  "re_sub m repl [] = []"
| "re_sub m repl (c # cs) =
     (case m (c # cs) of
        None \<Rightarrow> c # re_sub m repl cs
      | Some n \<Rightarrow>
          (if 0 < n \<and> n \<le> length (c # cs)
           then repl (take n (c # cs)) @ re_sub m repl (drop n (c # cs))
           else c # re_sub m repl cs))"
  by pat_completeness auto
termination
  by (relation "measure (\<lambda>(m, repl, text). length text)") auto

text \<open>\<open>bounded k\<close>: a match of \<open>k\<close> lies within the text.  \<open>consumes m\<close>: moreover it is not
  empty.\<close>

definition bounded :: "matcher \<Rightarrow> bool" where
  "bounded k \<longleftrightarrow> (\<forall>cs n. k cs = Some n \<longrightarrow> n \<le> length cs)"

definition consumes :: "matcher \<Rightarrow> bool" where
  "consumes m \<longleftrightarrow> (\<forall>cs n. m cs = Some n \<longrightarrow> 0 < n \<and> n \<le> length cs)"

section \<open>The chunking service\<close>

subsection \<open>\<open>_clean_text\<close>\<close>

text \<open>The three patterns of \<open>_clean_text\<close>:
  \<open>[\x00-\x08\x0B\x0C\x0E-\x1F\x7F]\<close>, \<open>[ \t]+\<close> and \<open>\n\s*\n\<close>.\<close>

definition pat_ctrl :: matcher where
  "pat_ctrl = m_chr is_ctrl m_end"

definition pat_blanks :: matcher where
  "pat_blanks = m_plus is_blank m_end"

definition pat_blank_lines :: matcher where
  "pat_blank_lines = m_chr is_nl (m_star is_space (m_chr is_nl m_end))"

definition clean_text :: "pystr \<Rightarrow> pystr" where
  "clean_text text =
     (let text = re_sub pat_ctrl (\<lambda>_. []) text;
          text = re_sub pat_blanks (\<lambda>_. lit '' '') text;
          text = re_sub pat_blank_lines (\<lambda>_. [NL, NL]) text
      in strip text)"

subsection \<open>\<open>_clean_table_formatting\<close>\<close>

text \<open>The patterns of \<open>clean_table_block\<close>, in the order of the source:
  \<open>>\s*\n\s*<\<close>, \<open></tr>\s*\n\s*\<close>, \<open>>\s+\<close>, \<open>\s+<\<close>; and the pattern
  \<open><table>.*?</table>\<close> with \<open>re.DOTALL\<close>.\<close>

definition pat_tag_gap :: matcher where
  "pat_tag_gap =
     m_str (lit ''>'') (m_star is_space (m_chr is_nl (m_star is_space (m_str (lit ''<'') m_end))))"

definition pat_tr_gap :: matcher where
  "pat_tr_gap = m_str (lit ''</tr>'') (m_star is_space (m_chr is_nl (m_star is_space m_end)))"

definition pat_after_gt :: matcher where
  "pat_after_gt = m_str (lit ''>'') (m_plus is_space m_end)"

definition pat_before_lt :: matcher where
  "pat_before_lt = m_plus is_space (m_str (lit ''<'') m_end)"

definition pat_table :: matcher where
  "pat_table = m_str (lit ''<table>'') (m_lazy any_cp (m_str (lit ''</table>'') m_end))"

definition clean_table_block :: "pystr \<Rightarrow> pystr" where
  "clean_table_block table_content =
     (let table_content = re_sub pat_tag_gap (\<lambda>_. lit ''><'') table_content;
          table_content = re_sub pat_tr_gap (\<lambda>_. lit ''</tr>'' @ [NL]) table_content;
          table_content = re_sub pat_after_gt (\<lambda>_. lit ''>'') table_content;
          table_content = re_sub pat_before_lt (\<lambda>_. lit ''<'') table_content
      in table_content)"

definition clean_table_formatting :: "pystr \<Rightarrow> pystr" where
  "clean_table_formatting text = re_sub pat_table clean_table_block text"

subsection \<open>\<open>_merge_small_chunks\<close>\<close>

text \<open>The \<open>while i < len(sections)\<close> loop, with the index \<open>i\<close> and the list
  \<open>merged_sections\<close> as its state; \<open>min_chunk_size\<close> is a Python \<open>int\<close>.\<close>

function merge_loop :: "pystr list \<Rightarrow> int \<Rightarrow> nat \<Rightarrow> pystr list \<Rightarrow> pystr list" where
  "merge_loop sections min_chunk_size i merged_sections =
     (if i < length sections then
        (let current_section = sections ! i in
         if int (length (strip current_section)) < min_chunk_size \<and> i + 1 < length sections
         then (let next_section = sections ! (i + 1);
                   combined_section = current_section @ [NL, NL] @ next_section
               in merge_loop sections min_chunk_size (i + 2) (merged_sections @ [combined_section]))
         else merge_loop sections min_chunk_size (i + 1) (merged_sections @ [current_section]))
      else merged_sections)"
  by pat_completeness auto
termination
  by (relation "measure (\<lambda>(sections, m, i, acc). length sections - i)") auto

definition merge_small_chunks :: "pystr list \<Rightarrow> int \<Rightarrow> pystr list" where
  "merge_small_chunks sections min_chunk_size =
     (if sections = [] then sections else merge_loop sections min_chunk_size 0 [])"

subsection \<open>\<open>_split_by_headers_manual\<close>\<close>

text \<open>The pattern \<open>^(#{1,4})\s+(.+)$\<close>, used with \<open>re.match\<close>.\<close>

definition is_hash :: "codepoint \<Rightarrow> bool" where
  "is_hash c \<longleftrightarrow> c = 35"

definition header_pattern :: matcher where
  "header_pattern =
     m_chr is_hash (m_upto is_hash 3 (m_plus is_space (m_plus not_nl (m_eos m_end))))"

text \<open>The state of the \<open>for\<close> loop over the lines is the pair of \<open>sections\<close> and
  \<open>current_section\<close> (\<open>header_count\<close> is only logged).\<close>

definition close_section :: "pystr list \<Rightarrow> pystr list \<Rightarrow> pystr list" where
  "close_section sections current_section =
     (if current_section \<noteq> [] then
        (let section_text = strip (join_nl current_section)
         in if section_text \<noteq> [] then sections @ [section_text] else sections)
      else sections)"

definition split_step :: "pystr list \<times> pystr list \<Rightarrow> pystr \<Rightarrow> pystr list \<times> pystr list" where
  "split_step st line =
     (case st of (sections, current_section) \<Rightarrow>
        (let line_stripped = strip line in
         if re_match header_pattern line_stripped
         then (close_section sections current_section, [line])
         else (sections, current_section @ [line])))"

definition split_by_headers_manual :: "pystr \<Rightarrow> pystr list" where
  "split_by_headers_manual text =
     (case foldl split_step ([], []) (split_nl text) of
        (sections, current_section) \<Rightarrow> close_section sections current_section)"

subsection \<open>\<open>chunk_document\<close>\<close>

text \<open>A LangChain \<open>Document\<close>: the text and a metadata dictionary.\<close>

datatype pyval = PInt int | PStr pystr

record document =
  page_content :: pystr
  metadata :: "pystr \<rightharpoonup> pyval"

text \<open>\<open>enumerate\<close>.\<close>

definition enumerate_from0 :: "'a list \<Rightarrow> (nat \<times> 'a) list" where
  "enumerate_from0 xs = zip [0..<length xs] xs"

text \<open>The first loop of \<open>chunk_document\<close>: the non-blank merged sections, each with its
  table formatting cleaned and the metadata \<open>{'section_index': i}\<close>.\<close>

definition section_documents :: "pystr list \<Rightarrow> document list" where
  "section_documents section_texts =
     map (\<lambda>(i, text). \<lparr>page_content = clean_table_formatting (strip text),
                        metadata = [lit ''section_index'' \<mapsto> PInt (int i)]\<rparr>)
         (filter (\<lambda>(i, text). strip text \<noteq> []) (enumerate_from0 section_texts))"

text \<open>The second loop: one chunk per section, \<open>chunk_index\<close> counting from 0.\<close>

definition chunk_of :: "document \<Rightarrow> nat \<Rightarrow> document \<Rightarrow> document" where
  "chunk_of doc chunk_index section =
     \<lparr>page_content = page_content section,
      metadata = (metadata doc)
        (lit ''chunk_index'' \<mapsto> PInt (int chunk_index),
         lit ''chunk_type'' \<mapsto> PStr (lit ''header_section''),
         lit ''original_length'' \<mapsto> PInt (int (length (page_content doc))),
         lit ''section_index'' \<mapsto>
            (case metadata section (lit ''section_index'') of Some v \<Rightarrow> v | None \<Rightarrow> PInt 0))\<rparr>"

text \<open>The pipeline of \<open>chunk_document\<close> with the merge threshold as a parameter;
  \<open>chunk_document\<close> itself calls \<open>_merge_small_chunks\<close> with its default, 100.\<close>

definition chunk_document_min :: "int \<Rightarrow> document \<Rightarrow> document list" where
  "chunk_document_min min_chunk_size doc =
     (let cleaned_text = clean_text (page_content doc);
          section_texts = split_by_headers_manual cleaned_text;
          section_texts = merge_small_chunks section_texts min_chunk_size;
          sections = section_documents section_texts
      in map (\<lambda>(chunk_index, section). chunk_of doc chunk_index section)
             (enumerate_from0 sections))"

definition chunk_document :: "document \<Rightarrow> document list" where
  "chunk_document doc = chunk_document_min 100 doc"

subsection \<open>\<open>chunk_all_documents\<close> and \<open>run_full_pipeline\<close>\<close>

text \<open>
  An exception with its message, and the error log (the messages of \<open>logger.error\<close>, in
  order).  \<open>chunk_document\<close>, \<open>chunk_all_documents\<close> and \<open>run_full_pipeline\<close> each wrap their
  body in \<open>try: ... except Exception as e: logger.error(...); raise\<close>.  The body of
  \<open>chunk_document\<close> and the other services are parameters that may fail.
\<close>

datatype exn = Exception (message: pystr)

type_synonym log = "pystr list"

definition chunk_document_try ::
  "(document \<Rightarrow> exn + document list) \<Rightarrow> document \<Rightarrow> log \<Rightarrow> log \<times> (exn + document list)" where
  "chunk_document_try body document log =
     (case body document of
        Inr chunk_documents \<Rightarrow> (log, Inr chunk_documents)
      | Inl e \<Rightarrow> (log @ [lit ''Error en chunking de documento: '' @ message e], Inl e))"

fun chunk_all_loop ::
  "(document \<Rightarrow> exn + document list) \<Rightarrow> document list \<Rightarrow> document list \<Rightarrow> log \<Rightarrow>
     log \<times> (exn + document list)" where
  "chunk_all_loop body [] all_chunks log = (log, Inr all_chunks)"
| "chunk_all_loop body (document # documents) all_chunks log =
     (case chunk_document_try body document log of
        (log', Inl e) \<Rightarrow> (log', Inl e)
      | (log', Inr chunks) \<Rightarrow> chunk_all_loop body documents (all_chunks @ chunks) log')"

definition chunk_all_documents_with ::
  "(document \<Rightarrow> exn + document list) \<Rightarrow> document list \<Rightarrow> log \<Rightarrow> log \<times> (exn + document list)" where
  "chunk_all_documents_with body documents log =
     (case chunk_all_loop body documents [] log of
        (log', Inr all_chunks) \<Rightarrow> (log', Inr all_chunks)
      | (log', Inl e) \<Rightarrow> (log' @ [lit ''Error en chunking masivo: '' @ message e], Inl e))"


text \<open>\<open>run_full_pipeline\<close>; the extraction, embedding and indexing services are parameters.
  The last word of the message logged when the indexing returns \<open>False\<close> is
  \<open>indexaci\<close>, U+00F3, \<open>n\<close>.\<close>

definition run_full_pipeline_with ::
  "(exn + document list) \<Rightarrow> (document \<Rightarrow> exn + document list) \<Rightarrow>
   (document list \<Rightarrow> exn + 'e) \<Rightarrow> ('e \<Rightarrow> exn + bool) \<Rightarrow> log \<Rightarrow> log \<times> (exn + bool)" where
  "run_full_pipeline_with extract_all_documents body add_all_embeddings index_all_documents log =
     (let fail = (\<lambda>log e. (log @ [lit ''Error en el pipeline de documentos: '' @ message e], Inl e))
      in case extract_all_documents of
           Inl e \<Rightarrow> fail log e
         | Inr documents \<Rightarrow>
             (case chunk_all_documents_with body documents log of
                (log, Inl e) \<Rightarrow> fail log e
              | (log, Inr chunks) \<Rightarrow>
                  (case add_all_embeddings chunks of
                     Inl e \<Rightarrow> fail log e
                   | Inr documents_with_embeddings \<Rightarrow>
                       (case index_all_documents documents_with_embeddings of
                          Inl e \<Rightarrow> fail log e
                        | Inr success \<Rightarrow>
                            (if success then (log, Inr True)
                             else (log @ [lit ''Error en la indexaci'' @ [243] @ lit ''n''],
                                   Inr False))))))"

section \<open>Auxiliary notions\<close>

subsection \<open>The merge as a recursion on the list\<close>

text \<open>The single left-to-right pass that the loop of \<open>_merge_small_chunks\<close> performs,
  written as a recursion on the remaining sections; \<open>merge_loop_rec\<close> below proves that
  the loop computes it.\<close>

fun merge_rec :: "pystr list \<Rightarrow> int \<Rightarrow> pystr list" where
  "merge_rec [] m = []"
| "merge_rec [x] m = [x]"
| "merge_rec (x # y # rest) m =
     (if int (length (strip x)) < m then (x @ [NL, NL] @ y) # merge_rec rest m
      else x # merge_rec (y # rest) m)"

subsection \<open>Auxiliary notions for \<open>_clean_text\<close>\<close>

text \<open>The three substitutions of \<open>_clean_text\<close>.\<close>

abbreviation sub_ctrl :: "pystr \<Rightarrow> pystr" where
  "sub_ctrl \<equiv> re_sub pat_ctrl (\<lambda>_. [])"
abbreviation sub_blanks :: "pystr \<Rightarrow> pystr" where
  "sub_blanks \<equiv> re_sub pat_blanks (\<lambda>_. lit '' '')"
abbreviation sub_blank_lines :: "pystr \<Rightarrow> pystr" where
  "sub_blank_lines \<equiv> re_sub pat_blank_lines (\<lambda>_. [NL, NL])"

text \<open>\<open>squeezed t\<close>: \<open>t\<close> has no tab and no two adjacent spaces.
  \<open>nl_gaps_closed t\<close>: two newlines of \<open>t\<close> with only whitespace between them are
  adjacent.\<close>

fun squeezed :: "pystr \<Rightarrow> bool" where
  "squeezed [] = True"
| "squeezed [c] = (c \<noteq> 9)"
| "squeezed (c # d # r) = (c \<noteq> 9 \<and> \<not> (c = 32 \<and> d = 32) \<and> squeezed (d # r))"

definition nl_gaps_closed :: "pystr \<Rightarrow> bool" where
  "nl_gaps_closed t \<longleftrightarrow>
     (\<forall>a w b. t = a @ NL # w @ NL # b \<longrightarrow> (\<forall>c\<in>set w. is_space c) \<longrightarrow> w = [])"

subsection \<open>Auxiliary notions for \<open>_clean_table_formatting\<close>\<close>

text \<open>\<open>gt_tight t\<close>: no \<open>>\<close> of \<open>t\<close> is followed by whitespace.\<close>

fun gt_tight :: "pystr \<Rightarrow> bool" where
  "gt_tight [] = True"
| "gt_tight [c] = True"
| "gt_tight (c # d # r) = (\<not> (c = 62 \<and> is_space d) \<and> gt_tight (d # r))"

abbreviation sub_after_gt :: "pystr \<Rightarrow> pystr" where
  "sub_after_gt \<equiv> re_sub pat_after_gt (\<lambda>_. lit ''>'')"
abbreviation sub_before_lt :: "pystr \<Rightarrow> pystr" where
  "sub_before_lt \<equiv> re_sub pat_before_lt (\<lambda>_. lit ''<'')"

text \<open>
  The table spans that \<open>re.sub\<close> finds for the non-greedy pattern \<open><table>.*?</table>\<close>,
  described on the text alone.  \<open>occurs s t\<close>: the string \<open>s\<close> occurs in \<open>t\<close>.
  \<open>has_table_span t\<close>: somewhere in \<open>t\<close> there is a \<open><table>\<close> with a \<open></table>\<close> after it.
  \<open>shortest_span t\<close>: \<open>t\<close> is \<open><table>\<close>, then a text in which \<open></table>\<close> does not occur
  (\<open>span_inner t\<close>), then \<open></table>\<close>.
\<close>

fun occurs :: "pystr \<Rightarrow> pystr \<Rightarrow> bool" where
  "occurs s [] = (s = [])"
| "occurs s (c # cs) = (take (length s) (c # cs) = s \<or> occurs s cs)"

fun has_table_span :: "pystr \<Rightarrow> bool" where
  "has_table_span [] = False"
| "has_table_span (c # cs) =
     ((take 7 (c # cs) = lit ''<table>'' \<and> occurs (lit ''</table>'') (drop 7 (c # cs))) \<or>
      has_table_span cs)"

definition span_inner :: "pystr \<Rightarrow> pystr" where
  "span_inner t = take (length t - 15) (drop 7 t)"

definition shortest_span :: "pystr \<Rightarrow> bool" where
  "shortest_span t \<longleftrightarrow>
     t = lit ''<table>'' @ span_inner t @ lit ''</table>'' \<and>
     \<not> occurs (lit ''</table>'') (span_inner t)"

text \<open>
  A text cut into segments: table spans and the regions outside them.  \<open>source_text\<close> is
  what a segment is in the input, \<open>compacted\<close> what it must be in the output if only table
  spans are changed.  \<open>segmented segments\<close>: the table spans are the leftmost shortest ones
  and the regions outside them are maximal, that is, a region followed by a table span
  contains no \<open><table>\<close>, the region after the last table span contains no table span,
  and no two regions are adjacent.
\<close>

datatype segment = Outside pystr | Table_span pystr

fun source_text :: "segment \<Rightarrow> pystr" where
  "source_text (Outside s) = s"
| "source_text (Table_span t) = t"

fun compacted :: "segment \<Rightarrow> pystr" where
  "compacted (Outside s) = s"
| "compacted (Table_span t) = clean_table_block t"

fun segmented :: "segment list \<Rightarrow> bool" where
  "segmented [] = True"
| "segmented [Outside s] = (\<not> has_table_span s)"
| "segmented (Outside s # Table_span t # segments) =
     (\<not> occurs (lit ''<table>'') s \<and> shortest_span t \<and> segmented segments)"
| "segmented (Outside s # Outside s' # segments) = False"
| "segmented (Table_span t # segments) = (shortest_span t \<and> segmented segments)"

subsection \<open>Auxiliary notions for \<open>chunk_document\<close>\<close>

text \<open>The section list after the merge, as \<open>chunk_document\<close> computes it.\<close>

definition merged_sections :: "int \<Rightarrow> document \<Rightarrow> pystr list" where
  "merged_sections min_chunk_size doc =
     merge_small_chunks (split_by_headers_manual (clean_text (page_content doc))) min_chunk_size"

subsection \<open>Auxiliary notions for \<open>_split_by_headers_manual\<close>\<close>

text \<open>The first line of a section, \<open>section.split('\n')[0]\<close>, and the invariant of the loop
  over the lines: every section but the first starts with a header line, no section is blank,
  and once a section has been closed the lines being accumulated start with a header
  line.\<close>

definition first_line :: "pystr \<Rightarrow> pystr" where
  "first_line s = takeWhile (\<lambda>c. c \<noteq> NL) s"

definition split_inv :: "pystr list \<times> pystr list \<Rightarrow> bool" where
  "split_inv st \<longleftrightarrow>
     (case st of (sections, current_section) \<Rightarrow>
        (\<forall>s\<in>set (tl sections). re_match header_pattern (first_line s)) \<and>
        (\<forall>s\<in>set sections. strip s \<noteq> []) \<and>
        (sections \<noteq> [] \<longrightarrow>
           current_section \<noteq> [] \<and> re_match header_pattern (strip (hd current_section)) \<and>
           NL \<notin> set (hd current_section)))"

section \<open>Sample inputs\<close>

text \<open>A text with a control character (U+0007), doubled blanks, a tab, a run of blank
  lines and surrounding whitespace.\<close>

definition noisy_text :: pystr where
  "noisy_text = [7] @ lit '' a  b\<newline> \<newline>\<newline>c '' @ [9]"

text \<open>A preamble followed by two sections.\<close>

definition sample_doc :: pystr where
  "sample_doc = lit ''pre\<newline># A\<newline>b\<newline>## C\<newline>d''"

definition sample_document :: document where
  "sample_document = \<lparr>page_content = sample_doc, metadata = Map.empty\<rparr>"

text \<open>The fixture of the end-to-end scenario of the specification.\<close>

definition fixture_text :: pystr where
  "fixture_text = lit ''Intro line.\<newline>\<newline># Section One\<newline>Short.\<newline>\<newline>## Sub\<newline>This is a longer paragraph exceeding the minimum character threshold easily.''"

definition fixture_document :: document where
  "fixture_document = \<lparr>page_content = fixture_text, metadata = Map.empty\<rparr>"

text \<open>Two texts with an HTML table.\<close>

definition table_text :: pystr where
  "table_text = lit ''<table>\<newline><tr><td>a</td></tr>\<newline><tr><td>b</td></tr>\<newline></table>''"

definition table_note_text :: pystr where
  "table_note_text = lit ''x <table><tr><td>a</td></tr> \<newline> note</table> y''"

text \<open>A text with two tables, prose before, between and after them, and its segments.\<close>

definition two_tables_text :: pystr where
  "two_tables_text = lit ''a  <table> <tr> </tr> </table> > x < <table>b </table>  c''"

definition two_tables_segments :: "segment list" where
  "two_tables_segments =
     [Outside (lit ''a  ''), Table_span (lit ''<table> <tr> </tr> </table>''),
      Outside (lit '' > x < ''), Table_span (lit ''<table>b </table>''), Outside (lit ''  c'')]"

text \<open>A body of \<open>chunk_document\<close> in which a stage fails on one document.\<close>

definition bad_document :: document where
  "bad_document = \<lparr>page_content = lit ''bad'', metadata = Map.empty\<rparr>"

definition faulty_body :: "document \<Rightarrow> exn + document list" where
  "faulty_body document =
     (if page_content document = lit ''bad'' then Inl (Exception (lit ''stage failure''))
      else Inr (chunk_document document))"

section \<open>Properties of \<open>re.sub\<close> and of the matchers\<close>

lemma re_sub_const_set: "set (re_sub m (\<lambda>_. r) t) \<subseteq> set t \<union> set r"
proof (induction m "\<lambda>_::pystr. r" t rule: re_sub.induct)
  case (1 m)
  show ?case by simp
next
  case (2 m c cs)
  show ?case
  proof (cases "m (c # cs)")
    case None
    with 2 show ?thesis by auto
  next
    case (Some n)
    show ?thesis
    proof (cases "0 < n \<and> n \<le> length (c # cs)")
      case True
      have "set (drop n (c # cs)) \<subseteq> set (c # cs)" by (rule set_drop_subset)
      with 2(2) [OF Some True] Some True show ?thesis by auto
    next
      case False
      with 2(3) [OF Some False] Some show ?thesis by auto
    qed
  qed
qed

lemma re_sub_fixed:
  assumes "\<And>a s n. t = a @ s \<Longrightarrow> m s = Some n \<Longrightarrow> 0 < n \<Longrightarrow> n \<le> length s \<Longrightarrow> repl (take n s) = take n s"
  shows "re_sub m repl t = t"
  using assms
proof (induction m repl t rule: re_sub.induct)
  case (1 m repl)
  show ?case by simp
next
  case (2 m repl c cs)
  have tl: "\<And>a s n. cs = a @ s \<Longrightarrow> m s = Some n \<Longrightarrow> 0 < n \<Longrightarrow> n \<le> length s \<Longrightarrow> repl (take n s) = take n s"
    using 2(4) [of "c # _"] by simp
  show ?case
  proof (cases "m (c # cs)")
    case None
    with 2(1) [OF None] tl show ?thesis by simp
  next
    case (Some n)
    show ?thesis
    proof (cases "0 < n \<and> n \<le> length (c # cs)")
      case True
      have r: "repl (take n (c # cs)) = take n (c # cs)"
        using 2(4) [of "[]" "c # cs" n] Some True by simp
      have "re_sub m repl (drop n (c # cs)) = drop n (c # cs)"
      proof (rule 2(2) [OF Some True])
        fix a s k
        assume "drop n (c # cs) = a @ s" "m s = Some k" "0 < k" "k \<le> length s"
        moreover from this(1) have "c # cs = (take n (c # cs) @ a) @ s"
          by (metis append_assoc append_take_drop_id)
        ultimately show "repl (take k s) = take k s" using 2(4) by blast
      qed
      with r Some True show ?thesis by (simp del: take_Suc_Cons drop_Suc_Cons take_Cons' drop_Cons')
    next
      case False
      with 2(3) [OF Some False] tl Some show ?thesis by auto
    qed
  qed
qed


subsection \<open>Matchers\<close>

lemma m_str_eq:
  "m_str s k cs =
     (if take (length s) cs = s then map_option (\<lambda>n. length s + n) (k (drop (length s) cs))
      else None)"
proof (induction s arbitrary: cs)
  case Nil
  show ?case by (cases "k cs") simp_all
next
  case (Cons x xs)
  show ?case
  proof (cases cs)
    case Nil
    then show ?thesis by simp
  next
    case (Cons c cs')
    then show ?thesis
      by (auto simp: Cons.IH is_cp_def option.map_comp comp_def)
  qed
qed

lemma m_star_end: "m_star p m_end cs = Some (length (takeWhile p cs))"
  by (induction cs) (simp_all add: m_end_def)

text \<open>Soundness of the greedy star: what it matched is a run of the class followed by a
  match of the continuation.\<close>

lemma m_star_sound:
  "m_star p k cs = Some n \<Longrightarrow>
     \<exists>j. j \<le> length (takeWhile p cs) \<and> j \<le> n \<and> k (drop j cs) = Some (n - j)"
proof (induction cs arbitrary: n)
  case Nil
  then show ?case by simp
next
  case (Cons c cs)
  show ?case
  proof (cases "p c")
    case False
    with Cons.prems show ?thesis by (intro exI [of _ 0]) simp
  next
    case True
    show ?thesis
    proof (cases "m_star p k cs")
      case None
      with Cons.prems True show ?thesis by (intro exI [of _ 0]) simp
    next
      case (Some r)
      with Cons.prems True have n: "n = Suc r" by simp
      from Cons.IH [OF Some] obtain j where
        "j \<le> length (takeWhile p cs)" "j \<le> r" "k (drop j cs) = Some (r - j)" by blast
      with True n show ?thesis by (intro exI [of _ "Suc j"]) simp
    qed
  qed
qed

lemma m_star_none:
  "m_star p k cs = None \<Longrightarrow> j \<le> length (takeWhile p cs) \<Longrightarrow> k (drop j cs) = None"
proof (induction cs arbitrary: j)
  case Nil
  then show ?case by simp
next
  case (Cons c cs)
  show ?case
  proof (cases "p c")
    case False
    with Cons.prems show ?thesis by simp
  next
    case True
    with Cons.prems have a: "m_star p k cs = None" "k (c # cs) = None"
      by (auto split: option.splits)
    show ?thesis
    proof (cases j)
      case 0
      with a show ?thesis by simp
    next
      case (Suc j')
      with Cons.prems True have "j' \<le> length (takeWhile p cs)" by simp
      from Cons.IH [OF a(1) this] Suc show ?thesis by simp
    qed
  qed
qed

declare re_sub.simps(2) [simp del]

subsection \<open>No pattern of the source matches the empty string\<close>

lemma bounded_end: "bounded m_end"
  by (simp add: bounded_def m_end_def)

lemma consumes_bounded: "consumes k \<Longrightarrow> bounded k"
  by (simp add: bounded_def consumes_def)

lemma consumes_chr:
  assumes "bounded k"
  shows "consumes (m_chr p k)"
  unfolding consumes_def
proof (intro allI impI)
  fix cs n assume h: "m_chr p k cs = Some n"
  then obtain c cs' where cs: "cs = c # cs'" by (cases cs) simp_all
  with h obtain n' where "k cs' = Some n'" "n = Suc n'"
    by (cases "k cs'") (simp_all split: if_splits)
  with assms cs show "0 < n \<and> n \<le> length cs" by (simp add: bounded_def)
qed

lemma bounded_star:
  assumes "bounded k"
  shows "bounded (m_star p k)"
  unfolding bounded_def
proof (intro allI impI)
  fix cs n assume "m_star p k cs = Some n"
  from m_star_sound [OF this] obtain j where
    j: "j \<le> length (takeWhile p cs)" "j \<le> n" "k (drop j cs) = Some (n - j)" by blast
  from assms j(3) have "n - j \<le> length (drop j cs)" unfolding bounded_def by blast
  moreover have "j \<le> length cs" using j(1) length_takeWhile_le [of p cs] by simp
  ultimately show "n \<le> length cs" using j(2) by simp
qed

lemma bounded_lazy:
  assumes "bounded k"
  shows "bounded (m_lazy p k)"
  unfolding bounded_def
proof (intro allI impI)
  fix cs n assume "m_lazy p k cs = Some n"
  then show "n \<le> length cs"
  proof (induction cs arbitrary: n)
    case Nil
    then have "k [] = Some n" by simp
    with assms show ?case unfolding bounded_def by blast
  next
    case (Cons c cs)
    show ?case
    proof (cases "k (c # cs)")
      case (Some r)
      with Cons.prems have "r = n" by simp
      with Some assms show ?thesis unfolding bounded_def by blast
    next
      case None
      with Cons.prems obtain n' where "m_lazy p k cs = Some n'" "n = Suc n'"
        by (cases "m_lazy p k cs") (simp_all split: if_splits)
      with Cons.IH show ?thesis by simp
    qed
  qed
qed

lemma bounded_str: "bounded k \<Longrightarrow> bounded (m_str s k)"
  by (induction s) (simp_all add: consumes_bounded consumes_chr)

lemma consumes_str: "s \<noteq> [] \<Longrightarrow> bounded k \<Longrightarrow> consumes (m_str s k)"
  by (cases s) (simp_all add: consumes_chr bounded_str)

lemma consumes_plus: "bounded k \<Longrightarrow> consumes (m_plus p k)"
  by (simp add: m_plus_def consumes_chr bounded_star)

lemma lit_nonempty:
  "lit ''>'' \<noteq> []" "lit ''<'' \<noteq> []" "lit ''</tr>'' \<noteq> []" "lit ''<table>'' \<noteq> []"
  "lit ''</table>'' \<noteq> []"
  by (simp_all add: lit_def)

lemma patterns_consume:
  "consumes pat_ctrl" "consumes pat_blanks" "consumes pat_blank_lines" "consumes pat_tag_gap"
  "consumes pat_tr_gap" "consumes pat_after_gt" "consumes pat_before_lt" "consumes pat_table"
  unfolding pat_ctrl_def pat_blanks_def pat_blank_lines_def pat_tag_gap_def pat_tr_gap_def
    pat_after_gt_def pat_before_lt_def pat_table_def
  by (intro consumes_chr consumes_plus consumes_str bounded_star bounded_lazy bounded_str
        consumes_bounded bounded_end lit_nonempty)+

text \<open>For such a pattern the guard of \<open>re_sub\<close> on the length of the match always holds.\<close>

lemma re_sub_consumes:
  assumes "consumes m"
  shows "re_sub m repl (c # cs) =
     (case m (c # cs) of
        None \<Rightarrow> c # re_sub m repl cs
      | Some n \<Rightarrow> repl (take n (c # cs)) @ re_sub m repl (drop n (c # cs)))"
proof (cases "m (c # cs)")
  case None
  then show ?thesis by (simp add: re_sub.simps(2))
next
  case (Some n)
  with assms have "0 < n \<and> n \<le> length (c # cs)" unfolding consumes_def by blast
  with Some show ?thesis by (simp add: re_sub.simps(2))
qed

section \<open>Properties of \<open>_clean_text\<close>\<close>

lemma lit_space: "lit '' '' = [32]"
  by (simp add: lit_def)

lemma is_space_NL: "is_space NL"
  by (simp add: is_space_def)

subsection \<open>Control characters\<close>

lemma pat_ctrl_eq: "pat_ctrl (c # cs) = (if is_ctrl c then Some 1 else None)"
  by (simp add: pat_ctrl_def m_end_def)

lemma sub_ctrl_filter: "sub_ctrl t = filter (\<lambda>c. \<not> is_ctrl c) t"
  by (induction t) (simp_all add: pat_ctrl_eq re_sub.simps(2))

subsection \<open>Runs of blanks\<close>

lemma pat_blanks_eq:
  "pat_blanks (c # cs) = (if is_blank c then Some (Suc (length (takeWhile is_blank cs))) else None)"
  by (simp add: pat_blanks_def m_plus_def m_star_end)

lemma sub_blanks_Cons:
  "sub_blanks (c # cs) =
     (if is_blank c then 32 # sub_blanks (dropWhile is_blank cs) else c # sub_blanks cs)"
proof -
  have "length (takeWhile is_blank cs) \<le> length cs" by (rule length_takeWhile_le)
  then show ?thesis
    by (simp add: re_sub.simps(2) pat_blanks_eq lit_space dropWhile_eq_drop)
qed

subsection \<open>Blank lines\<close>

lemma nl_tail_Cons:
  "m_chr is_nl m_end (c # cs) = (if c = NL then Some 1 else None)"
  by (simp add: is_nl_def m_end_def)

lemma blank_lines_tail_none:
  "m_star is_space (m_chr is_nl m_end) cs = None \<longleftrightarrow> NL \<notin> set (takeWhile is_space cs)"
proof (induction cs)
  case Nil
  show ?case by simp
next
  case (Cons c cs)
  show ?case
  proof (cases "is_space c")
    case False
    then have "c \<noteq> NL" using is_space_NL by auto
    with False show ?thesis by (simp add: nl_tail_Cons del: m_chr.simps)
  next
    case True
    with Cons show ?thesis
      by (cases "m_star is_space (m_chr is_nl m_end) cs")
        (auto simp add: nl_tail_Cons simp del: m_chr.simps)
  qed
qed

lemma blank_lines_tail_some:
  "m_star is_space (m_chr is_nl m_end) cs = Some n \<Longrightarrow>
     0 < n \<and> n \<le> length cs \<and> (\<forall>c\<in>set (take n cs). is_space c) \<and>
     NL \<notin> set (takeWhile is_space (drop n cs))"
proof (induction cs arbitrary: n)
  case Nil
  then show ?case by simp
next
  case (Cons c cs)
  show ?case
  proof (cases "is_space c")
    case False
    then have "c \<noteq> NL" using is_space_NL by auto
    with False Cons.prems show ?thesis by (simp add: nl_tail_Cons del: m_chr.simps)
  next
    case True
    show ?thesis
    proof (cases "m_star is_space (m_chr is_nl m_end) cs")
      case None
      then have w: "NL \<notin> set (takeWhile is_space cs)" by (simp add: blank_lines_tail_none)
      from None Cons.prems True have "c = NL \<and> n = 1"
        by (auto simp add: nl_tail_Cons simp del: m_chr.simps split: if_splits)
      with w True show ?thesis by simp
    next
      case (Some r)
      with Cons.prems True have n: "n = Suc r" by simp
      from Cons.IH [OF Some] n True show ?thesis by simp
    qed
  qed
qed

lemma pat_blank_lines_Cons:
  "pat_blank_lines (c # cs) =
     (if c = NL then map_option Suc (m_star is_space (m_chr is_nl m_end) cs) else None)"
  by (simp add: pat_blank_lines_def is_nl_def)

lemma sub_blank_lines_copy:
  "c \<noteq> NL \<or> NL \<notin> set (takeWhile is_space cs) \<Longrightarrow>
     sub_blank_lines (c # cs) = c # sub_blank_lines cs"
  using blank_lines_tail_none [of cs] by (auto simp: re_sub.simps(2) pat_blank_lines_Cons)

lemma sub_blank_lines_match:
  assumes "NL \<in> set (takeWhile is_space cs)"
  shows "\<exists>n. 0 < n \<and> n \<le> length cs \<and> (\<forall>c\<in>set (take n cs). is_space c) \<and>
           NL \<notin> set (takeWhile is_space (drop n cs)) \<and>
           sub_blank_lines (NL # cs) = NL # NL # sub_blank_lines (drop n cs)"
proof -
  from assms obtain n where n: "m_star is_space (m_chr is_nl m_end) cs = Some n"
    using blank_lines_tail_none [of cs] by auto
  from blank_lines_tail_some [OF n] n show ?thesis
    by (intro exI [of _ n]) (simp add: re_sub.simps(2) pat_blank_lines_Cons)
qed

lemma takeWhile_sub_blank_lines:
  "NL \<notin> set (takeWhile is_space cs) \<Longrightarrow>
     takeWhile is_space (sub_blank_lines cs) = takeWhile is_space cs"
proof (induction cs)
  case Nil
  show ?case by simp
next
  case (Cons c cs)
  show ?case
  proof (cases "is_space c")
    case False
    then have "c \<noteq> NL" using is_space_NL by auto
    then have "sub_blank_lines (c # cs) = c # sub_blank_lines cs"
      by (simp add: sub_blank_lines_copy)
    with False show ?thesis by simp
  next
    case True
    with Cons.prems have c: "c \<noteq> NL" and w: "NL \<notin> set (takeWhile is_space cs)" by auto
    from c have "sub_blank_lines (c # cs) = c # sub_blank_lines cs"
      by (simp add: sub_blank_lines_copy)
    with True Cons.IH [OF w] show ?thesis by simp
  qed
qed

text \<open>After the substitution, a newline followed by whitespace that contains a newline is
  followed by that newline at once, and by no other in the same run.\<close>

lemma sub_blank_lines_closed:
  assumes "sub_blank_lines y = a @ NL # u" and "NL \<in> set (takeWhile is_space u)"
  shows "\<exists>v. u = NL # v \<and> NL \<notin> set (takeWhile is_space v)"
  using assms
proof (induction "length y" arbitrary: y a rule: less_induct)
  case less
  show ?case
  proof (cases y)
    case Nil
    with less.prems show ?thesis by simp
  next
    case (Cons c cs)
    show ?thesis
    proof (cases "c = NL \<and> NL \<in> set (takeWhile is_space cs)")
      case False
      then have eq: "sub_blank_lines y = c # sub_blank_lines cs"
        using Cons by (simp add: sub_blank_lines_copy)
      show ?thesis
      proof (cases a)
        case Nil
        with eq less.prems(1) have "c = NL" "u = sub_blank_lines cs" by simp_all
        with False have "NL \<notin> set (takeWhile is_space cs)" by simp
        with \<open>u = _\<close> less.prems(2) show ?thesis by (simp add: takeWhile_sub_blank_lines)
      next
        case (Cons x a')
        with eq less.prems(1) have "sub_blank_lines cs = a' @ NL # u" by simp
        from less.hyps [OF _ this less.prems(2)] \<open>y = c # cs\<close> show ?thesis by simp
      qed
    next
      case True
      then obtain n where n: "0 < n" "n \<le> length cs"
        "NL \<notin> set (takeWhile is_space (drop n cs))"
        "sub_blank_lines (NL # cs) = NL # NL # sub_blank_lines (drop n cs)"
        using sub_blank_lines_match [of cs] by blast
      from True Cons have y: "y = NL # cs" by simp
      let ?r = "drop n cs"
      have w: "takeWhile is_space (sub_blank_lines ?r) = takeWhile is_space ?r"
        using n(3) by (rule takeWhile_sub_blank_lines)
      from less.prems(1) y n(4) have eq: "NL # NL # sub_blank_lines ?r = a @ NL # u" by simp
      show ?thesis
      proof (cases a)
        case Nil
        with eq have "u = NL # sub_blank_lines ?r" by simp
        with w n(3) show ?thesis by simp
      next
        case a1: (Cons x a')
        show ?thesis
        proof (cases a')
          case Nil
          with a1 eq have "u = sub_blank_lines ?r" by simp
          with w n(3) less.prems(2) show ?thesis by simp
        next
          case (Cons x' a'')
          with a1 eq have "sub_blank_lines ?r = a'' @ NL # u" by simp
          moreover have "length ?r < length y" using y n(1,2) by simp
          ultimately show ?thesis using less.hyps less.prems(2) by blast
        qed
      qed
    qed
  qed
qed

subsection \<open>strip\<close>

lemma lstrip_decomp: "\<exists>a. t = a @ lstrip t \<and> (\<forall>c\<in>set a. is_space c)"
  unfolding lstrip_def
  by (rule exI [of _ "takeWhile is_space t"]) (auto dest: set_takeWhileD)

lemma rstrip_decomp: "\<exists>b. t = rstrip t @ b \<and> (\<forall>c\<in>set b. is_space c)"
proof -
  have "rev t = takeWhile is_space (rev t) @ dropWhile is_space (rev t)" by simp
  then have "t = rev (dropWhile is_space (rev t)) @ rev (takeWhile is_space (rev t))"
    by (metis rev_append rev_rev_ident)
  then show ?thesis
    unfolding rstrip_def
    by (intro exI [of _ "rev (takeWhile is_space (rev t))"]) (auto dest: set_takeWhileD)
qed

lemma strip_decomp:
  "\<exists>a b. t = a @ strip t @ b \<and> (\<forall>c\<in>set a. is_space c) \<and> (\<forall>c\<in>set b. is_space c)"
proof -
  obtain a where a: "t = a @ lstrip t" "\<forall>c\<in>set a. is_space c"
    using lstrip_decomp by blast
  obtain b where b: "lstrip t = rstrip (lstrip t) @ b" "\<forall>c\<in>set b. is_space c"
    using rstrip_decomp by blast
  from a b show ?thesis unfolding strip_def by metis
qed

lemma set_strip: "set (strip t) \<subseteq> set t"
  using strip_decomp [of t] by (metis Un_iff set_append subsetI)

lemma lstrip_hd: "lstrip t \<noteq> [] \<Longrightarrow> \<not> is_space (hd (lstrip t))"
  unfolding lstrip_def by (rule hd_dropWhile)

lemma rstrip_last: "rstrip t \<noteq> [] \<Longrightarrow> \<not> is_space (last (rstrip t))"
  unfolding rstrip_def by (simp add: last_rev hd_dropWhile)

lemma rstrip_keeps_hd:
  assumes "s \<noteq> []" "\<not> is_space (hd s)"
  shows "rstrip s \<noteq> [] \<and> hd (rstrip s) = hd s"
proof -
  from assms obtain x s' where s: "s = x # s'" "\<not> is_space x" by (cases s) auto
  have "dropWhile is_space (rev s' @ [x]) =
          (if \<forall>c\<in>set (rev s'). is_space c then [x] else dropWhile is_space (rev s') @ [x])"
    using s(2) by (simp add: dropWhile_append)
  then obtain r where "dropWhile is_space (rev s) = r @ [x]"
    using s(1) by (cases "\<forall>c\<in>set (rev s'). is_space c") auto
  then show ?thesis using s(1) by (simp add: rstrip_def)
qed

lemma strip_hd: "strip t \<noteq> [] \<Longrightarrow> \<not> is_space (hd (strip t))"
proof -
  assume ne: "strip t \<noteq> []"
  then have l: "lstrip t \<noteq> []" by (auto simp: strip_def rstrip_def)
  from rstrip_keeps_hd [OF l lstrip_hd [OF l]] lstrip_hd [OF l]
  show ?thesis by (simp add: strip_def)
qed

lemma strip_last: "strip t \<noteq> [] \<Longrightarrow> \<not> is_space (last (strip t))"
  unfolding strip_def by (rule rstrip_last)

lemma lstrip_id: "s = [] \<or> \<not> is_space (hd s) \<Longrightarrow> lstrip s = s"
  by (cases s) (auto simp: lstrip_def)

lemma rstrip_id: "s = [] \<or> \<not> is_space (last s) \<Longrightarrow> rstrip s = s"
  by (cases s rule: rev_cases) (auto simp: rstrip_def)

lemma strip_id: "s = [] \<or> (\<not> is_space (hd s) \<and> \<not> is_space (last s)) \<Longrightarrow> strip s = s"
  by (auto simp: strip_def lstrip_id rstrip_id)

lemma strip_strip: "strip (strip t) = strip t"
  using strip_hd [of t] strip_last [of t] by (intro strip_id) blast

subsection \<open>squeezed\<close>

lemma squeezed_Cons:
  "squeezed (c # t) \<longleftrightarrow> c \<noteq> 9 \<and> (t \<noteq> [] \<longrightarrow> \<not> (c = 32 \<and> hd t = 32)) \<and> squeezed t"
  by (cases t) (auto elim: squeezed.elims)

lemma squeezed_tl: "squeezed (c # t) \<Longrightarrow> squeezed t"
  by (simp add: squeezed_Cons)

lemma squeezed_append: "squeezed (a @ b) \<Longrightarrow> squeezed a \<and> squeezed b"
proof (induction a)
  case Nil
  then show ?case by simp
next
  case (Cons x a)
  then have 1: "squeezed a" "squeezed b" "x \<noteq> 9" "a @ b \<noteq> [] \<longrightarrow> \<not> (x = 32 \<and> hd (a @ b) = 32)"
    by (simp_all add: squeezed_Cons)
  then show ?case by (cases a) (simp_all add: squeezed_Cons)
qed

lemma squeezed_strip: "squeezed t \<Longrightarrow> squeezed (strip t)"
  using strip_decomp [of t] by (metis squeezed_append)

lemma sub_blanks_hd:
  "(sub_blanks t = [] \<longleftrightarrow> t = []) \<and> (t \<noteq> [] \<longrightarrow> \<not> is_blank (hd t) \<longrightarrow> hd (sub_blanks t) = hd t)"
  by (cases t) (simp_all add: sub_blanks_Cons)

lemma squeezed_sub_blanks: "squeezed (sub_blanks y)"
proof (induction "length y" arbitrary: y rule: less_induct)
  case less
  show ?case
  proof (cases y)
    case Nil
    then show ?thesis by simp
  next
    case (Cons c cs)
    show ?thesis
    proof (cases "is_blank c")
      case True
      let ?r = "dropWhile is_blank cs"
      have "length ?r < length y" using Cons by (simp add: length_dropWhile_le le_imp_less_Suc)
      then have sq: "squeezed (sub_blanks ?r)" by (rule less.hyps)
      have "?r \<noteq> [] \<longrightarrow> \<not> is_blank (hd ?r)" by (simp add: hd_dropWhile)
      with sub_blanks_hd [of ?r] have "sub_blanks ?r \<noteq> [] \<longrightarrow> hd (sub_blanks ?r) \<noteq> 32"
        by (auto simp: is_blank_def)
      with sq True Cons show ?thesis by (simp add: sub_blanks_Cons squeezed_Cons)
    next
      case False
      have "squeezed (sub_blanks cs)" using Cons by (intro less.hyps) simp
      with False Cons show ?thesis by (simp add: sub_blanks_Cons squeezed_Cons is_blank_def)
    qed
  qed
qed

lemma sub_blanks_id: "squeezed t \<Longrightarrow> sub_blanks t = t"
proof (induction t)
  case Nil
  show ?case by simp
next
  case (Cons c cs)
  then have sq: "squeezed cs" and c: "c \<noteq> 9" and adj: "cs \<noteq> [] \<longrightarrow> \<not> (c = 32 \<and> hd cs = 32)"
    by (simp_all add: squeezed_Cons)
  show ?case
  proof (cases "is_blank c")
    case False
    with Cons.IH [OF sq] show ?thesis by (simp add: sub_blanks_Cons)
  next
    case True
    with c have c32: "c = 32" by (simp add: is_blank_def)
    have "dropWhile is_blank cs = cs"
    proof (cases cs)
      case Nil
      then show ?thesis by simp
    next
      case (Cons d ds)
      with sq adj c32 have "d \<noteq> 9" "d \<noteq> 32" by (simp_all add: squeezed_Cons)
      with Cons show ?thesis by (simp add: is_blank_def)
    qed
    with True c32 Cons.IH [OF sq] show ?thesis by (simp add: sub_blanks_Cons)
  qed
qed

lemma sub_blank_lines_hd:
  "(sub_blank_lines t = [] \<longleftrightarrow> t = []) \<and> (t \<noteq> [] \<longrightarrow> hd (sub_blank_lines t) = hd t)"
proof (cases t)
  case Nil
  then show ?thesis by simp
next
  case (Cons c cs)
  show ?thesis
  proof (cases "c = NL \<and> NL \<in> set (takeWhile is_space cs)")
    case True
    with sub_blank_lines_match [of cs] Cons show ?thesis by auto
  next
    case False
    with Cons show ?thesis by (simp add: sub_blank_lines_copy)
  qed
qed

lemma squeezed_sub_blank_lines: "squeezed y \<Longrightarrow> squeezed (sub_blank_lines y)"
proof (induction "length y" arbitrary: y rule: less_induct)
  case less
  show ?case
  proof (cases y)
    case Nil
    then show ?thesis by simp
  next
    case (Cons c cs)
    with less.prems have sq: "squeezed cs" and c: "c \<noteq> 9"
      and adj: "cs \<noteq> [] \<longrightarrow> \<not> (c = 32 \<and> hd cs = 32)"
      by (simp_all add: squeezed_Cons)
    show ?thesis
    proof (cases "c = NL \<and> NL \<in> set (takeWhile is_space cs)")
      case False
      have "squeezed (sub_blank_lines cs)" using Cons sq by (intro less.hyps) simp_all
      with False Cons c adj sub_blank_lines_hd [of cs] show ?thesis
        by (simp add: sub_blank_lines_copy squeezed_Cons)
    next
      case True
      then obtain n where n: "0 < n" "n \<le> length cs"
        "sub_blank_lines (NL # cs) = NL # NL # sub_blank_lines (drop n cs)"
        using sub_blank_lines_match [of cs] by blast
      have "squeezed (drop n cs)"
        using sq squeezed_append [of "take n cs" "drop n cs"] by simp
      then have "squeezed (sub_blank_lines (drop n cs))"
        using Cons n(1,2) by (intro less.hyps) simp_all
      with n(3) True Cons show ?thesis by (simp add: squeezed_Cons)
    qed
  qed
qed

lemma squeezed_nth:
  "squeezed t \<Longrightarrow> i < length t \<Longrightarrow>
     t ! i \<noteq> 9 \<and> (Suc i < length t \<longrightarrow> \<not> (t ! i = 32 \<and> t ! Suc i = 32))"
proof (induction t arbitrary: i)
  case Nil
  then show ?case by simp
next
  case (Cons c t)
  then have sq: "squeezed t" and c: "c \<noteq> 9" and adj: "t \<noteq> [] \<longrightarrow> \<not> (c = 32 \<and> hd t = 32)"
    by (simp_all add: squeezed_Cons)
  show ?case
  proof (cases i)
    case 0
    with c adj show ?thesis by (cases t) auto
  next
    case (Suc j)
    with Cons.prems have "j < length t" by simp
    from Cons.IH [OF sq this] Suc show ?thesis by simp
  qed
qed

subsection \<open>Closed newline gaps\<close>

lemma nl_gaps_closed_sub_blank_lines: "nl_gaps_closed (sub_blank_lines y)"
  unfolding nl_gaps_closed_def
proof (intro allI impI)
  fix a w b
  assume eq: "sub_blank_lines y = a @ NL # w @ NL # b" and ws: "\<forall>c\<in>set w. is_space c"
  let ?u = "w @ NL # b"
  have tw: "takeWhile is_space (w' @ NL # b) = w' @ NL # takeWhile is_space b"
    if "\<forall>c\<in>set w'. is_space c" for w'
    using that by (simp add: takeWhile_append2 is_space_NL)
  have "NL \<in> set (takeWhile is_space ?u)" using tw [OF ws] by simp
  from sub_blank_lines_closed [OF eq this] obtain v where
    v: "?u = NL # v" "NL \<notin> set (takeWhile is_space v)" by blast
  show "w = []"
  proof (rule ccontr)
    assume "w \<noteq> []"
    with v(1) obtain w' where w': "w = NL # w'" "v = w' @ NL # b" by (cases w) auto
    with ws have "\<forall>c\<in>set w'. is_space c" by simp
    from tw [OF this] w'(2) v(2) show False by simp
  qed
qed

lemma nl_gaps_closed_sub: "nl_gaps_closed (a @ t @ b) \<Longrightarrow> nl_gaps_closed t"
  unfolding nl_gaps_closed_def
proof (intro allI impI)
  fix a' w b'
  assume h: "\<forall>a' w b'. a @ t @ b = a' @ NL # w @ NL # b' \<longrightarrow> (\<forall>c\<in>set w. is_space c) \<longrightarrow> w = []"
    and "t = a' @ NL # w @ NL # b'" "\<forall>c\<in>set w. is_space c"
  then have "a @ t @ b = (a @ a') @ NL # w @ NL # (b' @ b)" by simp
  with h \<open>\<forall>c\<in>set w. is_space c\<close> show "w = []" by blast
qed

lemma nl_gaps_closed_strip: "nl_gaps_closed t \<Longrightarrow> nl_gaps_closed (strip t)"
  using strip_decomp [of t] by (metis nl_gaps_closed_sub)

lemma blank_lines_tail_last:
  assumes "m_star is_space (m_chr is_nl m_end) cs = Some n"
  shows "cs ! (n - 1) = NL"
proof -
  from m_star_sound [OF assms] obtain j where
    j: "j \<le> n" "m_chr is_nl m_end (drop j cs) = Some (n - j)" by blast
  then obtain d ds where d: "drop j cs = d # ds" by (cases "drop j cs") auto
  with j(2) have "d = NL" "n - j = 1"
    by (auto simp: is_nl_def m_end_def split: if_splits)
  moreover have "cs ! j = d" using d by (rule nth_via_drop)
  moreover have "j = n - 1" using j(1) \<open>n - j = 1\<close> by arith
  ultimately show ?thesis by simp
qed

lemma sub_blank_lines_id:
  assumes "nl_gaps_closed t"
  shows "sub_blank_lines t = t"
proof (rule re_sub_fixed)
  fix a s n
  assume t: "t = a @ s" and m: "pat_blank_lines s = Some n" and n: "0 < n" "n \<le> length s"
  from n obtain c cs where s: "s = c # cs" by (cases s) auto
  with m obtain n' where c: "c = NL" and n': "n = Suc n'"
    and st: "m_star is_space (m_chr is_nl m_end) cs = Some n'"
    by (auto simp: pat_blank_lines_Cons split: if_splits)
  from blank_lines_tail_some [OF st] have b: "0 < n'" "n' \<le> length cs"
    "\<forall>c\<in>set (take n' cs). is_space c" by simp_all
  from blank_lines_tail_last [OF st] have l: "cs ! (n' - 1) = NL" .
  let ?w = "take (n' - 1) cs"
  have lt: "n' - 1 < length cs" using b(1,2) by simp
  have tk: "take n' cs = ?w @ [NL]"
    using take_Suc_conv_app_nth [OF lt] l b(1) by simp
  have "cs = take n' cs @ drop n' cs" by simp
  then have "cs = ?w @ NL # drop n' cs" unfolding tk by simp
  then have "t = a @ NL # ?w @ NL # drop n' cs" using t s c by simp
  moreover have "\<forall>c\<in>set ?w. is_space c" using b(3) unfolding tk by simp
  ultimately have "?w = []" using assms unfolding nl_gaps_closed_def by blast
  with tk have "take n' cs = [NL]" by simp
  with n' s c show "[NL, NL] = take n s" by simp
qed

lemma nl_gaps_closed_no_triple:
  assumes "nl_gaps_closed t" "i + 2 < length t"
  shows "\<not> (t ! i = NL \<and> t ! (i + 1) = NL \<and> t ! (i + 2) = NL)"
proof
  assume h: "t ! i = NL \<and> t ! (i + 1) = NL \<and> t ! (i + 2) = NL"
  have d0: "drop i t = t ! i # drop (Suc i) t"
    using assms(2) by (simp add: Cons_nth_drop_Suc)
  have d1: "drop (Suc i) t = t ! Suc i # drop (Suc (Suc i)) t"
    using assms(2) by (simp add: Cons_nth_drop_Suc)
  have d2: "drop (Suc (Suc i)) t = t ! Suc (Suc i) # drop (Suc (Suc (Suc i))) t"
    using assms(2) by (simp add: Cons_nth_drop_Suc)
  have "t = take i t @ drop i t" by simp
  then have "t = take i t @ NL # [NL] @ NL # drop (Suc (Suc (Suc i))) t"
    unfolding d0 d1 d2 using h by simp
  moreover have "\<forall>c\<in>set [NL]. is_space c" using is_space_NL by simp
  ultimately have "[NL] = ([]::pystr)"
    using assms(1) unfolding nl_gaps_closed_def by blast
  then show False by simp
qed

lemma clean_text_unfold:
  "clean_text x = strip (sub_blank_lines (sub_blanks (sub_ctrl x)))"
  by (simp add: clean_text_def)

lemma clean_text_no_ctrl: "c \<in> set (clean_text x) \<Longrightarrow> \<not> is_ctrl c"
proof -
  assume "c \<in> set (clean_text x)"
  then have "c \<in> set (sub_blank_lines (sub_blanks (sub_ctrl x)))"
    using set_strip unfolding clean_text_unfold by blast
  then have "c \<in> set (sub_blanks (sub_ctrl x)) \<or> c = NL"
    using re_sub_const_set [of pat_blank_lines "[NL, NL]" "sub_blanks (sub_ctrl x)"] by auto
  then have "c \<in> set (sub_ctrl x) \<or> c = 32 \<or> c = NL"
    using re_sub_const_set [of pat_blanks "lit '' ''" "sub_ctrl x"] by (auto simp: lit_space)
  then show ?thesis by (auto simp: sub_ctrl_filter is_ctrl_def)
qed

lemma clean_text_squeezed: "squeezed (clean_text x)"
  unfolding clean_text_unfold
  by (intro squeezed_strip squeezed_sub_blank_lines squeezed_sub_blanks)

lemma clean_text_gaps: "nl_gaps_closed (clean_text x)"
  unfolding clean_text_unfold
  by (intro nl_gaps_closed_strip nl_gaps_closed_sub_blank_lines)

subsection \<open>Evaluation on a sample\<close>

lemmas char_classes = is_space_def is_ctrl_def is_blank_def is_nl_def not_nl_def any_cp_def
  is_cp_def is_hash_def

lemma clean_text_noisy: "clean_text noisy_text = [97, 32, 98, 10, 10, 99]"
  by (simp add: noisy_text_def clean_text_def re_sub.simps(2) pat_ctrl_def pat_blanks_def
      pat_blank_lines_def m_plus_def m_end_def char_classes strip_def lstrip_def rstrip_def lit_def)

subsection \<open>Idempotence and the invariant of normalized text\<close>

text \<open>
  Claim C6.  \<open>_clean_text\<close> is idempotent: cleaning a cleaned text changes nothing.
\<close>

theorem clean_text_idempotent: "clean_text (clean_text x) = clean_text x"
proof -
  let ?z = "clean_text x"
  have 1: "sub_ctrl ?z = ?z"
    using clean_text_no_ctrl [of _ x] by (simp add: sub_ctrl_filter)
  have 2: "sub_blanks ?z = ?z" by (rule sub_blanks_id [OF clean_text_squeezed])
  have 3: "sub_blank_lines ?z = ?z" by (rule sub_blank_lines_id [OF clean_text_gaps])
  have 4: "strip ?z = ?z" unfolding clean_text_unfold by (rule strip_strip)
  show ?thesis
    by (subst (1) clean_text_unfold) (simp only: 1 2 3 4)
qed

theorem clean_text_idempotent_witness:
  "clean_text (clean_text noisy_text) = [97, 32, 98, 10, 10, 99]"
  using clean_text_idempotent [of noisy_text] by (simp only: clean_text_noisy)

text \<open>
  Claim C7.  The result of \<open>_clean_text\<close> contains no code point of the ranges
  0x00-0x08, 0x0B-0x0C, 0x0E-0x1F and 0x7F, no three consecutive newlines, and no two
  consecutive code points that are a space or a tab.
\<close>

theorem clean_text_normalized:
  "(\<forall>c\<in>set (clean_text x).
      \<not> (c \<le> 8 \<or> c = 11 \<or> c = 12 \<or> (14 \<le> c \<and> c \<le> 31) \<or> c = 127)) \<and>
   (\<forall>i. i + 2 < length (clean_text x) \<longrightarrow>
      \<not> (clean_text x ! i = NL \<and> clean_text x ! (i + 1) = NL \<and> clean_text x ! (i + 2) = NL)) \<and>
   (\<forall>i. i + 1 < length (clean_text x) \<longrightarrow>
      \<not> (clean_text x ! i \<in> {32, 9} \<and> clean_text x ! (i + 1) \<in> {32, 9}))"
proof (intro conjI ballI allI impI)
  fix c assume "c \<in> set (clean_text x)"
  from clean_text_no_ctrl [OF this]
  show "\<not> (c \<le> 8 \<or> c = 11 \<or> c = 12 \<or> (14 \<le> c \<and> c \<le> 31) \<or> c = 127)"
    by (simp add: is_ctrl_def)
next
  fix i assume "i + 2 < length (clean_text x)"
  then show "\<not> (clean_text x ! i = NL \<and> clean_text x ! (i + 1) = NL \<and> clean_text x ! (i + 2) = NL)"
    by (rule nl_gaps_closed_no_triple [OF clean_text_gaps])
next
  fix i assume i: "i + 1 < length (clean_text x)"
  then have "i < length (clean_text x)" "Suc i < length (clean_text x)" by simp_all
  from squeezed_nth [OF clean_text_squeezed this(1)] squeezed_nth [OF clean_text_squeezed this(2)] this(2)
  show "\<not> (clean_text x ! i \<in> {32, 9} \<and> clean_text x ! (i + 1) \<in> {32, 9})"
    by auto
qed

theorem clean_text_normalized_witness:
  "clean_text noisy_text = [97, 32, 98, 10, 10, 99] \<and>
   7 \<notin> set (clean_text noisy_text) \<and>
   3 + 2 < length (clean_text noisy_text) \<and>
   \<not> (clean_text noisy_text ! 3 = NL \<and> clean_text noisy_text ! (3 + 1) = NL \<and>
      clean_text noisy_text ! (3 + 2) = NL) \<and>
   1 + 1 < length (clean_text noisy_text) \<and>
   \<not> (clean_text noisy_text ! 1 \<in> {32, 9} \<and> clean_text noisy_text ! (1 + 1) \<in> {32, 9})"
proof -
  have l: "3 + 2 < length (clean_text noisy_text)" "1 + 1 < length (clean_text noisy_text)"
    by (simp_all add: clean_text_noisy)
  note n = clean_text_normalized [of noisy_text]
  have a: "7 \<notin> set (clean_text noisy_text)"
    using n [THEN conjunct1, THEN bspec, of 7] by fastforce
  have b: "\<not> (clean_text noisy_text ! 3 = NL \<and> clean_text noisy_text ! (3 + 1) = NL \<and>
            clean_text noisy_text ! (3 + 2) = NL)"
    using n [THEN conjunct2, THEN conjunct1, rule_format, OF l(1)] .
  have c: "\<not> (clean_text noisy_text ! 1 \<in> {32, 9} \<and> clean_text noisy_text ! (1 + 1) \<in> {32, 9})"
    using n [THEN conjunct2, THEN conjunct2, rule_format, OF l(2)] .
  from a b c l clean_text_noisy show ?thesis by (intro conjI)
qed

section \<open>Properties of \<open>_merge_small_chunks\<close>\<close>

declare merge_loop.simps [simp del]

lemma merge_loop_rec:
  "merge_loop sections m i acc = acc @ merge_rec (drop i sections) m"
proof (induction sections m i acc rule: merge_loop.induct)
  case (1 sections m i acc)
  show ?case
  proof (cases "i < length sections")
    case False
    then show ?thesis by (simp add: merge_loop.simps)
  next
    case lt: True
    have d: "drop i sections = sections ! i # drop (Suc i) sections"
      using lt by (simp add: Cons_nth_drop_Suc)
    show ?thesis
    proof (cases "int (length (strip (sections ! i))) < m \<and> i + 1 < length sections")
      case True
      then have d2: "drop (Suc i) sections = sections ! (i + 1) # drop (i + 2) sections"
        by (simp add: Cons_nth_drop_Suc)
      have "merge_loop sections m i acc =
            merge_loop sections m (i + 2) (acc @ [sections ! i @ [NL, NL] @ sections ! (i + 1)])"
        using lt True by (subst merge_loop.simps) simp
      also have "\<dots> = (acc @ [sections ! i @ [NL, NL] @ sections ! (i + 1)]) @
                        merge_rec (drop (i + 2) sections) m"
        using "1.IH"(1) [OF lt refl True refl refl] .
      finally show ?thesis using True by (simp add: d d2)
    next
      case False
      have "merge_loop sections m i acc = merge_loop sections m (i + 1) (acc @ [sections ! i])"
        using lt False by (subst merge_loop.simps) auto
      also have "\<dots> = (acc @ [sections ! i]) @ merge_rec (drop (i + 1) sections) m"
        using "1.IH"(2) [OF lt refl False] .
      finally have eq: "merge_loop sections m i acc =
          (acc @ [sections ! i]) @ merge_rec (drop (i + 1) sections) m" .
      show ?thesis
      proof (cases "drop (Suc i) sections")
        case Nil
        with eq show ?thesis by (simp add: d)
      next
        case (Cons y ys)
        then have "i + 1 < length sections"
          by (metis Suc_eq_plus1 drop_eq_Nil2 list.distinct(1) not_le)
        with False have "\<not> int (length (strip (sections ! i))) < m" by simp
        with eq Cons show ?thesis by (simp add: d)
      qed
    qed
  qed
qed

lemma merge_small_chunks_rec: "merge_small_chunks sections m = merge_rec sections m"
  by (simp add: merge_small_chunks_def merge_loop_rec)

text \<open>
  Claim C3.  \<open>_merge_small_chunks\<close> is one left-to-right pass: on an empty list it returns
  the empty list; a last section with no successor is emitted as it is, whatever its size;
  when the trimmed length of the current section is below \<open>min_chunk_size\<close> and a next
  section exists, the two are emitted as one section joined by a blank line and the pass goes
  on after the next section, neither of them being examined again; otherwise the current
  section is emitted unchanged and the pass goes on with the next one.  For three sections of
  10, 10 and 200 code points and the threshold 100 the result is the merge of the first two,
  followed by the third.
\<close>

theorem merge_single_pass:
  "merge_small_chunks [] m = [] \<and>
   merge_small_chunks [x] m = [x] \<and>
   merge_small_chunks (x # y # rest) m =
     (if int (length (strip x)) < m
      then (x @ [NL, NL] @ y) # merge_small_chunks rest m
      else x # merge_small_chunks (y # rest) m) \<and>
   (length a = 10 \<and> length b = 10 \<and> length c = 200 \<longrightarrow>
      merge_small_chunks [a, b, c] 100 = [a @ [NL, NL] @ b, c])"
proof -
  have sl: "length (strip s) \<le> length s" for s
    by (simp add: strip_def rstrip_def lstrip_def) (metis length_dropWhile_le length_rev le_trans)
  have "length a = 10 \<Longrightarrow> int (length (strip a)) < 100"
    using sl [of a] by simp
  then show ?thesis by (auto simp: merge_small_chunks_rec)
qed

theorem merge_single_pass_witness:
  "length (replicate 10 (97::nat)) = 10 \<and> length (replicate 10 (98::nat)) = 10 \<and>
   length (replicate 200 (99::nat)) = 200 \<and>
   merge_small_chunks [replicate 10 97, replicate 10 98, replicate 200 99] 100 =
     [replicate 10 97 @ [NL, NL] @ replicate 10 98, replicate 200 99]"
proof -
  have "length (replicate 10 (97::nat)) = 10 \<and> length (replicate 10 (98::nat)) = 10 \<and>
        length (replicate 200 (99::nat)) = 200"
    by simp
  with merge_single_pass [where a = "replicate 10 97" and b = "replicate 10 98"
      and c = "replicate 200 99"]
  show ?thesis by blast
qed

section \<open>Properties of \<open>_split_by_headers_manual\<close>\<close>

subsection \<open>When a matcher succeeds\<close>

lemma m_chr_succ:
  "m_chr p k cs \<noteq> None \<longleftrightarrow> (\<exists>c cs'. cs = c # cs' \<and> p c \<and> k cs' \<noteq> None)"
  by (cases cs) simp_all

lemma m_star_succ:
  "m_star p k cs \<noteq> None \<longleftrightarrow> (\<exists>j\<le>length (takeWhile p cs). k (drop j cs) \<noteq> None)"
proof
  assume "m_star p k cs \<noteq> None"
  then obtain n where "m_star p k cs = Some n" by (cases "m_star p k cs") simp_all
  from m_star_sound [OF this] obtain j where
    j: "j \<le> length (takeWhile p cs)" "k (drop j cs) = Some (n - j)" by blast
  from j(2) have "k (drop j cs) \<noteq> None" by simp
  with j(1) show "\<exists>j\<le>length (takeWhile p cs). k (drop j cs) \<noteq> None" by blast
next
  assume "\<exists>j\<le>length (takeWhile p cs). k (drop j cs) \<noteq> None"
  then obtain j where j: "j \<le> length (takeWhile p cs)" "k (drop j cs) \<noteq> None" by blast
  show "m_star p k cs \<noteq> None"
  proof
    assume "m_star p k cs = None"
    from m_star_none [OF this j(1)] j(2) show False by simp
  qed
qed

lemma m_upto_succ:
  "m_upto p n k cs \<noteq> None \<longleftrightarrow>
     (\<exists>j. j \<le> n \<and> j \<le> length (takeWhile p cs) \<and> k (drop j cs) \<noteq> None)"
proof (induction p n k cs rule: m_upto.induct)
  case (1 p k cs)
  show ?case by simp
next
  case (2 p n k)
  show ?case by simp
next
  case (3 p n k c cs)
  show ?case
  proof (cases "p c")
    case False
    then show ?thesis by simp
  next
    case True
    have "(\<exists>j. j \<le> Suc n \<and> j \<le> length (takeWhile p (c # cs)) \<and> k (drop j (c # cs)) \<noteq> None) \<longleftrightarrow>
          k (c # cs) \<noteq> None \<or> (\<exists>j. j \<le> n \<and> j \<le> length (takeWhile p cs) \<and> k (drop j cs) \<noteq> None)"
      (is "?L \<longleftrightarrow> ?R")
    proof
      assume ?L
      then obtain j where j: "j \<le> Suc n" "j \<le> length (takeWhile p (c # cs))"
        "k (drop j (c # cs)) \<noteq> None" by blast
      show ?R
      proof (cases j)
        case 0
        with j show ?thesis by simp
      next
        case (Suc j')
        with j True show ?thesis by auto
      qed
    next
      assume ?R
      then show ?L
      proof
        assume "k (c # cs) \<noteq> None"
        then show ?L by (intro exI [of _ 0]) simp
      next
        assume "\<exists>j. j \<le> n \<and> j \<le> length (takeWhile p cs) \<and> k (drop j cs) \<noteq> None"
        then obtain j where "j \<le> n" "j \<le> length (takeWhile p cs)" "k (drop j cs) \<noteq> None"
          by blast
        with True show ?L by (intro exI [of _ "Suc j"]) simp
      qed
    qed
    then have LR: "?L \<longleftrightarrow> ?R" .
    have IH: "m_upto p n k cs \<noteq> None \<longleftrightarrow>
        (\<exists>j. j \<le> n \<and> j \<le> length (takeWhile p cs) \<and> k (drop j cs) \<noteq> None)"
      using 3 [OF True] .
    have un: "m_upto p (Suc n) k (c # cs) \<noteq> None \<longleftrightarrow>
        k (c # cs) \<noteq> None \<or> m_upto p n k cs \<noteq> None"
      using True by (cases "m_upto p n k cs") simp_all
    show ?thesis unfolding un IH LR ..
  qed
qed

lemma takeWhile_append_le: "length (takeWhile p a) \<le> length (takeWhile p (a @ b))"
  by (induction a) auto

subsection \<open>The header pattern\<close>

lemma header_body_append:
  assumes "m_plus not_nl (m_eos m_end) u \<noteq> None" "NL \<notin> set u" "NL \<notin> set v"
  shows "m_plus not_nl (m_eos m_end) (u @ v) \<noteq> None"
proof -
  from assms(1) obtain d u1 where u: "u = d # u1" "not_nl d"
    unfolding m_plus_def m_chr_succ by blast
  have "\<forall>c\<in>set (u1 @ v). not_nl c" using assms(2,3) u(1) by (auto simp: not_nl_def)
  then have tw: "takeWhile not_nl (u1 @ v) = u1 @ v" by (simp only: takeWhile_eq_all_conv)
  have "length (u1 @ v) \<le> length (takeWhile not_nl (u1 @ v))"
    unfolding tw by (rule order_refl)
  moreover have "m_eos m_end (drop (length (u1 @ v)) (u1 @ v)) \<noteq> None"
    by (simp add: m_eos_def m_end_def)
  ultimately have "m_star not_nl (m_eos m_end) (u1 @ v) \<noteq> None"
    unfolding m_star_succ by blast
  with u show ?thesis unfolding m_plus_def m_chr_succ by simp
qed

lemma header_gap_append:
  assumes "m_plus is_space (m_plus not_nl (m_eos m_end)) t \<noteq> None" "NL \<notin> set t" "NL \<notin> set v"
  shows "m_plus is_space (m_plus not_nl (m_eos m_end)) (t @ v) \<noteq> None"
proof -
  let ?K = "m_plus not_nl (m_eos m_end)"
  from assms(1) obtain sp t1 j where t: "t = sp # t1" "is_space sp"
    and j: "j \<le> length (takeWhile is_space t1)" "?K (drop j t1) \<noteq> None"
    unfolding m_plus_def [of is_space] m_chr_succ m_star_succ by blast
  have jl: "j \<le> length t1" using j(1) length_takeWhile_le [of is_space t1] by simp
  have "NL \<notin> set (drop j t1)" using assms(2) t(1) by (auto dest: in_set_dropD)
  from header_body_append [OF j(2) this assms(3)] jl
  have "?K (drop j (t1 @ v)) \<noteq> None" by simp
  moreover have "j \<le> length (takeWhile is_space (t1 @ v))"
    using j(1) takeWhile_append_le [of is_space t1 v] by simp
  ultimately have "m_star is_space ?K (t1 @ v) \<noteq> None" unfolding m_star_succ by blast
  with t show ?thesis unfolding m_plus_def [of is_space] m_chr_succ by simp
qed

lemma header_append:
  assumes "re_match header_pattern s" "NL \<notin> set s" "NL \<notin> set v"
  shows "re_match header_pattern (s @ v)"
proof -
  let ?K = "m_plus is_space (m_plus not_nl (m_eos m_end))"
  from assms(1) obtain c s1 j where s: "s = c # s1" "is_hash c"
    and j: "j \<le> 3" "j \<le> length (takeWhile is_hash s1)" "?K (drop j s1) \<noteq> None"
    unfolding re_match_def header_pattern_def m_chr_succ m_upto_succ by blast
  have jl: "j \<le> length s1" using j(2) length_takeWhile_le [of is_hash s1] by simp
  have "NL \<notin> set (drop j s1)" using assms(2) s(1) by (auto dest: in_set_dropD)
  from header_gap_append [OF j(3) this assms(3)] jl
  have "?K (drop j (s1 @ v)) \<noteq> None" by simp
  moreover have "j \<le> length (takeWhile is_hash (s1 @ v))"
    using j(2) takeWhile_append_le [of is_hash s1 v] by simp
  ultimately have "m_upto is_hash 3 ?K (s1 @ v) \<noteq> None"
    unfolding m_upto_succ using j(1) by blast
  with s show ?thesis unfolding re_match_def header_pattern_def m_chr_succ by simp
qed

lemma header_nonempty: "re_match header_pattern s \<Longrightarrow> s \<noteq> []"
  unfolding re_match_def header_pattern_def m_chr_succ by blast

subsection \<open>strip of a text that starts with a non-blank line\<close>

lemma strip_Nil_iff: "strip s = [] \<longleftrightarrow> (\<forall>c\<in>set s. is_space c)"
proof
  assume "strip s = []"
  with strip_decomp [of s] show "\<forall>c\<in>set s. is_space c" by auto
next
  assume "\<forall>c\<in>set s. is_space c"
  then show "strip s = []"
    by (auto simp: strip_def lstrip_def rstrip_def dest: set_dropWhileD)
qed

lemma rstrip_append:
  assumes "b \<noteq> []" "\<not> is_space (last b)"
  shows "rstrip (b @ y) = b @ rstrip y"
proof (cases "\<forall>c\<in>set y. is_space c")
  case True
  then have "dropWhile is_space (rev y @ rev b) = dropWhile is_space (rev b)"
    by (simp add: dropWhile_append)
  moreover have "dropWhile is_space (rev b) = rev b"
    using assms by (cases b rule: rev_cases) auto
  moreover have "dropWhile is_space (rev y) = []" using True by simp
  ultimately show ?thesis by (simp add: rstrip_def)
next
  case False
  then have "\<not> (\<forall>c\<in>set (rev y). is_space c)" by simp
  then have "dropWhile is_space (rev y @ rev b) = dropWhile is_space (rev y) @ rev b"
    by (simp only: dropWhile_append if_False)
  then show ?thesis by (simp add: rstrip_def)
qed

lemma strip_append:
  assumes "strip l \<noteq> []"
  shows "\<exists>r. strip (l @ x) = strip l @ r"
proof -
  obtain a c where l: "l = a @ strip l @ c" "\<forall>c\<in>set a. is_space c"
    using strip_decomp [of l] by blast
  let ?b = "strip l"
  have hd: "\<not> is_space (hd ?b)" and la: "\<not> is_space (last ?b)"
    using assms strip_hd strip_last by blast+
  have "l @ x = (a @ ?b @ c) @ x" using l(1) by (rule arg_cong [where f = "\<lambda>t. t @ x"])
  then have lx: "l @ x = a @ ?b @ (c @ x)" by (simp only: append_assoc)
  have "dropWhile is_space (a @ ?b @ (c @ x)) = dropWhile is_space (?b @ (c @ x))"
    using l(2) by (simp add: dropWhile_append)
  also have "\<dots> = ?b @ (c @ x)"
    using assms hd by (cases ?b) simp_all
  finally have "lstrip (l @ x) = ?b @ (c @ x)"
    unfolding lstrip_def by (simp only: lx)
  then have "strip (l @ x) = ?b @ rstrip (c @ x)"
    unfolding strip_def [of "l @ x"] using rstrip_append [OF assms la] by simp
  then show ?thesis by blast
qed

lemma first_line_no_nl: "NL \<notin> set (first_line s)"
  unfolding first_line_def by (auto dest: set_takeWhileD)

lemma first_line_append: "NL \<notin> set b \<Longrightarrow> first_line (b @ r) = b @ first_line r"
  unfolding first_line_def by (induction b) auto

lemma join_nl_Cons: "\<exists>x. join_nl (l # ls) = l @ x"
  by (cases ls) auto

text \<open>A closed section whose first accumulated line is a header starts with a header.\<close>

lemma header_section:
  assumes "re_match header_pattern (strip l)" "NL \<notin> set l"
  shows "re_match header_pattern (first_line (strip (join_nl (l # ls))))"
proof -
  obtain x where x: "join_nl (l # ls) = l @ x" using join_nl_Cons by blast
  have ne: "strip l \<noteq> []" using assms(1) by (rule header_nonempty)
  then obtain r where r: "strip (l @ x) = strip l @ r" using strip_append by blast
  have nl: "NL \<notin> set (strip l)" using assms(2) set_strip [of l] by blast
  have "first_line (strip (join_nl (l # ls))) = strip l @ first_line r"
    unfolding x r using nl by (rule first_line_append)
  moreover have "re_match header_pattern (strip l @ first_line r)"
    using assms(1) nl first_line_no_nl by (rule header_append)
  ultimately show ?thesis by simp
qed


subsection \<open>The loop of \<open>_split_by_headers_manual\<close>\<close>

lemma split_nl_no_nl: "l \<in> set (split_nl t) \<Longrightarrow> NL \<notin> set l"
proof (induction t arbitrary: l)
  case Nil
  then show ?case by simp
next
  case (Cons c cs)
  show ?case
  proof (cases "c = NL")
    case True
    with Cons show ?thesis by auto
  next
    case False
    show ?thesis
    proof (cases "split_nl cs")
      case Nil
      with False Cons.prems show ?thesis by simp
    next
      case (Cons l' ls)
      then have "NL \<notin> set l'" "\<forall>x\<in>set ls. NL \<notin> set x" using Cons.IH by simp_all
      with False Cons Cons.prems show ?thesis by auto
    qed
  qed
qed

lemma close_section_inv:
  assumes "split_inv (sections, cur)"
  shows "(\<forall>s\<in>set (tl (close_section sections cur)). re_match header_pattern (first_line s)) \<and>
         (\<forall>s\<in>set (close_section sections cur). strip s \<noteq> [])"
proof (cases "cur \<noteq> [] \<and> strip (join_nl cur) \<noteq> []")
  case False
  then have "close_section sections cur = sections" by (auto simp: close_section_def)
  with assms show ?thesis by (simp add: split_inv_def)
next
  case True
  let ?st = "strip (join_nl cur)"
  from True have R: "close_section sections cur = sections @ [?st]"
    by (simp add: close_section_def)
  have B: "strip ?st \<noteq> []" using True by (simp add: strip_strip)
  show ?thesis
  proof (cases "sections = []")
    case True
    with R B show ?thesis by simp
  next
    case False
    with assms have c: "cur \<noteq> []" "re_match header_pattern (strip (hd cur))" "NL \<notin> set (hd cur)"
      by (simp_all add: split_inv_def)
    from c(1) have "cur = hd cur # tl cur" by simp
    then have "re_match header_pattern (first_line ?st)"
      using header_section [OF c(2,3), of "tl cur"] by simp
    with assms R B False show ?thesis by (auto simp: split_inv_def)
  qed
qed

lemma split_step_inv:
  assumes "split_inv st" "NL \<notin> set line"
  shows "split_inv (split_step st line)"
proof -
  obtain sections cur where st: "st = (sections, cur)" by (cases st)
  from assms(1) have inv: "split_inv (sections, cur)" unfolding st .
  show ?thesis
  proof (cases "re_match header_pattern (strip line)")
    case True
    then have eq: "split_step st line = (close_section sections cur, [line])"
      by (simp add: split_step_def st)
    from close_section_inv [OF inv] have
      a: "\<forall>s\<in>set (tl (close_section sections cur)). re_match header_pattern (first_line s)"
      and b: "\<forall>s\<in>set (close_section sections cur). strip s \<noteq> []" by blast+
    show ?thesis unfolding eq split_inv_def prod.case
      using a b True assms(2) by simp
  next
    case False
    then have eq: "split_step st line = (sections, cur @ [line])"
      by (simp add: split_step_def st)
    from inv have
      a: "\<forall>s\<in>set (tl sections). re_match header_pattern (first_line s)"
      and b: "\<forall>s\<in>set sections. strip s \<noteq> []"
      and c: "sections \<noteq> [] \<longrightarrow>
           cur \<noteq> [] \<and> re_match header_pattern (strip (hd cur)) \<and> NL \<notin> set (hd cur)"
      unfolding split_inv_def prod.case by blast+
    from c have "sections \<noteq> [] \<longrightarrow> cur @ [line] \<noteq> [] \<and>
        re_match header_pattern (strip (hd (cur @ [line]))) \<and> NL \<notin> set (hd (cur @ [line]))"
      by (cases cur) simp_all
    with a b show ?thesis unfolding eq split_inv_def prod.case by blast
  qed
qed

lemma foldl_split_step_inv:
  "split_inv st \<Longrightarrow> \<forall>l\<in>set ls. NL \<notin> set l \<Longrightarrow> split_inv (foldl split_step st ls)"
  by (induction ls arbitrary: st) (simp_all add: split_step_inv)

lemma split_by_headers_manual_inv:
  "(\<forall>s\<in>set (tl (split_by_headers_manual text)). re_match header_pattern (first_line s)) \<and>
   (\<forall>s\<in>set (split_by_headers_manual text). strip s \<noteq> [])"
proof -
  have "split_inv ([], [])" by (simp add: split_inv_def)
  then have "split_inv (foldl split_step ([], []) (split_nl text))"
    by (rule foldl_split_step_inv) (simp add: split_nl_no_nl)
  moreover obtain sections cur where
    f: "foldl split_step ([], []) (split_nl text) = (sections, cur)" by fastforce
  ultimately have "split_inv (sections, cur)" by simp
  from close_section_inv [OF this] f show ?thesis
    by (simp add: split_by_headers_manual_def)
qed

lemma split_sections_nonblank: "s \<in> set (split_by_headers_manual text) \<Longrightarrow> strip s \<noteq> []"
  using split_by_headers_manual_inv by blast

lemma header_pattern_unfold:
  "header_pattern =
     m_chr is_hash (m_upto is_hash (Suc (Suc (Suc 0)))
       (m_chr is_space (m_star is_space (m_chr not_nl (m_star not_nl (m_eos m_end))))))"
  by (simp add: header_pattern_def m_plus_def numeral_3_eq_3)

lemmas split_eval = split_by_headers_manual_def split_step_def close_section_def re_match_def
  header_pattern_unfold m_eos_def m_end_def strip_def lstrip_def rstrip_def char_classes lit_def

lemma split_sample:
  "split_by_headers_manual sample_doc = [lit ''pre'', lit ''# A\<newline>b'', lit ''## C\<newline>d'']"
  by (simp add: sample_doc_def split_eval)

text \<open>
  Claim C8.  Every section returned by \<open>_split_by_headers_manual\<close>, except possibly the
  first one, has a first line that matches the header pattern \<open>^(#{1,4})\s+(.+)$\<close>.
\<close>

theorem sections_start_with_header:
  "0 < i \<Longrightarrow> i < length (split_by_headers_manual text) \<Longrightarrow>
     re_match header_pattern (first_line (split_by_headers_manual text ! i))"
proof -
  assume i: "0 < i" "i < length (split_by_headers_manual text)"
  let ?r = "split_by_headers_manual text"
  from i obtain j where j: "i = Suc j" by (cases i) auto
  with i(2) have "?r ! i = tl ?r ! j" "j < length (tl ?r)" by (simp_all add: nth_tl)
  then have "?r ! i \<in> set (tl ?r)" by (metis nth_mem)
  with split_by_headers_manual_inv [of "text"] show ?thesis by blast
qed

theorem sections_start_with_header_witness:
  "(0::nat) < 1 \<and> 1 < length (split_by_headers_manual sample_doc) \<and>
   split_by_headers_manual sample_doc ! 1 = lit ''# A\<newline>b'' \<and>
   re_match header_pattern (first_line (split_by_headers_manual sample_doc ! 1))"
proof -
  have l: "1 < length (split_by_headers_manual sample_doc)" by (simp add: split_sample)
  have "re_match header_pattern (first_line (split_by_headers_manual sample_doc ! 1))"
    using sections_start_with_header [of 1 sample_doc] l by simp
  with l show ?thesis by (simp add: split_sample)
qed

section \<open>Properties of \<open>chunk_document\<close>\<close>

subsection \<open>No blank section\<close>

lemma strip_append_nonblank: "strip x \<noteq> [] \<Longrightarrow> strip (x @ y) \<noteq> []"
  by (auto simp: strip_Nil_iff)

lemma merge_rec_nonblank:
  "\<forall>s\<in>set xs. strip s \<noteq> [] \<Longrightarrow> \<forall>s\<in>set (merge_rec xs m). strip s \<noteq> []"
  by (induction xs m rule: merge_rec.induct) (simp_all add: strip_append_nonblank)

lemma merged_sections_nonblank: "s \<in> set (merged_sections m doc) \<Longrightarrow> strip s \<noteq> []"
  unfolding merged_sections_def merge_small_chunks_rec
  using merge_rec_nonblank [of "split_by_headers_manual (clean_text (page_content doc))" m]
    split_sections_nonblank by blast

subsection \<open>The chunks\<close>

lemma filter_enumerate_all:
  assumes "\<forall>x\<in>set xs. P x"
  shows "filter (\<lambda>(i, x). P x) (enumerate_from0 xs) = enumerate_from0 xs"
proof -
  have "\<forall>p\<in>set (enumerate_from0 xs). (\<lambda>(i, x). P x) p"
    using assms unfolding enumerate_from0_def by (auto dest: set_zip_rightD)
  then show ?thesis by (simp only: filter_id_conv)
qed

lemma enumerate_from0_nth:
  "k < length xs \<Longrightarrow> enumerate_from0 xs ! k = (k, xs ! k)"
  by (simp add: enumerate_from0_def)

lemma length_enumerate_from0: "length (enumerate_from0 xs) = length xs"
  by (simp add: enumerate_from0_def)

lemma section_documents_nonblank:
  assumes "\<forall>s\<in>set ts. strip s \<noteq> []"
  shows "length (section_documents ts) = length ts"
    and "k < length ts \<Longrightarrow> section_documents ts ! k =
           \<lparr>page_content = clean_table_formatting (strip (ts ! k)),
            metadata = [lit ''section_index'' \<mapsto> PInt (int k)]\<rparr>"
  unfolding section_documents_def filter_enumerate_all [of ts "\<lambda>t. strip t \<noteq> []", OF assms]
  by (simp_all add: length_enumerate_from0 enumerate_from0_nth)

lemma chunk_document_min_unfold:
  "chunk_document_min m doc =
     map (\<lambda>(chunk_index, section). chunk_of doc chunk_index section)
       (enumerate_from0 (section_documents (merged_sections m doc)))"
  by (simp add: chunk_document_min_def merged_sections_def)

lemma length_chunk_document_min:
  "length (chunk_document_min m doc) = length (merged_sections m doc)"
  unfolding chunk_document_min_unfold
  using section_documents_nonblank(1) [of "merged_sections m doc"] merged_sections_nonblank
  by (simp add: length_enumerate_from0)

lemma chunk_document_min_nth:
  assumes "k < length (merged_sections m doc)"
  shows "chunk_document_min m doc ! k =
     \<lparr>page_content = clean_table_formatting (strip (merged_sections m doc ! k)),
      metadata = (metadata doc)
        (lit ''chunk_index'' \<mapsto> PInt (int k),
         lit ''chunk_type'' \<mapsto> PStr (lit ''header_section''),
         lit ''original_length'' \<mapsto> PInt (int (length (page_content doc))),
         lit ''section_index'' \<mapsto> PInt (int k))\<rparr>"
proof -
  let ?ts = "merged_sections m doc"
  have nb: "\<forall>s\<in>set ?ts. strip s \<noteq> []" using merged_sections_nonblank by blast
  have l: "length (section_documents ?ts) = length ?ts"
    by (rule section_documents_nonblank(1) [OF nb])
  have s: "section_documents ?ts ! k =
           \<lparr>page_content = clean_table_formatting (strip (?ts ! k)),
            metadata = [lit ''section_index'' \<mapsto> PInt (int k)]\<rparr>"
    by (rule section_documents_nonblank(2) [OF nb assms])
  have "chunk_document_min m doc ! k = chunk_of doc k (section_documents ?ts ! k)"
    unfolding chunk_document_min_unfold using assms l
    by (simp add: length_enumerate_from0 enumerate_from0_nth)
  then show ?thesis unfolding s by (simp add: chunk_of_def)
qed

lemma metadata_keys_distinct:
  "lit ''chunk_index'' \<noteq> lit ''chunk_type''"
  "lit ''chunk_index'' \<noteq> lit ''original_length''"
  "lit ''chunk_index'' \<noteq> lit ''section_index''"
  by (simp_all add: lit_def)

lemma chunk_document_min_indices:
  assumes "k < length (chunk_document_min m doc)"
  shows "metadata (chunk_document_min m doc ! k) (lit ''section_index'') = Some (PInt (int k))"
    and "metadata (chunk_document_min m doc ! k) (lit ''chunk_index'') = Some (PInt (int k))"
    and "page_content (chunk_document_min m doc ! k) =
           clean_table_formatting (strip (merged_sections m doc ! k))"
proof -
  from assms have k: "k < length (merged_sections m doc)"
    by (simp add: length_chunk_document_min)
  show "metadata (chunk_document_min m doc ! k) (lit ''section_index'') = Some (PInt (int k))"
    unfolding chunk_document_min_nth [OF k] by simp
  show "metadata (chunk_document_min m doc ! k) (lit ''chunk_index'') = Some (PInt (int k))"
    unfolding chunk_document_min_nth [OF k] by (simp add: metadata_keys_distinct)
  show "page_content (chunk_document_min m doc ! k) =
           clean_table_formatting (strip (merged_sections m doc ! k))"
    unfolding chunk_document_min_nth [OF k] by simp
qed

text \<open>
  Claim C10.  Every chunk of \<open>chunk_document\<close> has \<open>section_index\<close> equal to
  \<open>chunk_index\<close>: no section is blank after the segmentation and the merge, so the filter
  before the assembly drops nothing, there are as many chunks as merged sections, and both
  counters give the chunk its position in that list.
\<close>

theorem section_index_is_chunk_index:
  "(\<forall>s\<in>set (merged_sections 100 doc). strip s \<noteq> []) \<and>
   length (chunk_document doc) = length (merged_sections 100 doc) \<and>
   (\<forall>k<length (chunk_document doc).
      metadata (chunk_document doc ! k) (lit ''section_index'') = Some (PInt (int k)) \<and>
      metadata (chunk_document doc ! k) (lit ''chunk_index'') = Some (PInt (int k))) \<and>
   (\<forall>c\<in>set (chunk_document doc).
      metadata c (lit ''section_index'') = metadata c (lit ''chunk_index''))"
proof (intro conjI ballI allI impI)
  fix s assume "s \<in> set (merged_sections 100 doc)"
  then show "strip s \<noteq> []" by (rule merged_sections_nonblank)
next
  show "length (chunk_document doc) = length (merged_sections 100 doc)"
    by (simp add: chunk_document_def length_chunk_document_min)
next
  fix k assume "k < length (chunk_document doc)"
  then have k: "k < length (chunk_document_min 100 doc)" by (simp add: chunk_document_def)
  show "metadata (chunk_document doc ! k) (lit ''section_index'') = Some (PInt (int k))"
    unfolding chunk_document_def by (rule chunk_document_min_indices(1) [OF k])
  show "metadata (chunk_document doc ! k) (lit ''chunk_index'') = Some (PInt (int k))"
    unfolding chunk_document_def by (rule chunk_document_min_indices(2) [OF k])
next
  fix c assume "c \<in> set (chunk_document doc)"
  then obtain k where k: "k < length (chunk_document_min 100 doc)"
    and c: "c = chunk_document_min 100 doc ! k"
    unfolding chunk_document_def in_set_conv_nth by blast
  show "metadata c (lit ''section_index'') = metadata c (lit ''chunk_index'')"
    unfolding c
    by (simp only: chunk_document_min_indices(1) [OF k] chunk_document_min_indices(2) [OF k])
qed

text \<open>
  Claim C2, as amended.  The \<open>section_index\<close> of a chunk is the position of its section in
  the section list after the small-section merge: the chunk with \<open>section_index\<close> \<open>k\<close> holds
  the \<open>k\<close>-th merged section, stripped and with its tables compacted.
\<close>

theorem section_index_after_merge:
  "k < length (chunk_document doc) \<Longrightarrow>
     k < length (merged_sections 100 doc) \<and>
     metadata (chunk_document doc ! k) (lit ''section_index'') = Some (PInt (int k)) \<and>
     page_content (chunk_document doc ! k) =
       clean_table_formatting (strip (merged_sections 100 doc ! k))"
proof -
  assume "k < length (chunk_document doc)"
  then have k: "k < length (chunk_document_min 100 doc)" by (simp add: chunk_document_def)
  then have "k < length (merged_sections 100 doc)" by (simp add: length_chunk_document_min)
  with chunk_document_min_indices(1,3) [OF k] show ?thesis
    by (simp add: chunk_document_def)
qed

section \<open>\<open>chunk_document\<close> on the samples\<close>

lemmas clean_eval = clean_text_unfold re_sub.simps(2) pat_ctrl_def pat_blanks_def
  pat_blank_lines_def m_plus_def m_end_def strip_def lstrip_def rstrip_def char_classes lit_def

lemmas table_eval = clean_table_formatting_def re_sub.simps(2) pat_table_def is_cp_def lit_def

lemma list2_nth: "length xs = 2 \<Longrightarrow> xs = [xs ! 0, xs ! 1]"
  by (cases xs; cases "tl xs") auto

subsection \<open>The sample document\<close>

lemma clean_sample: "clean_text sample_doc = sample_doc"
  by (simp add: sample_doc_def clean_eval)

lemma merged_sample:
  "merged_sections 100 sample_document = [lit ''pre\<newline>\<newline># A\<newline>b'', lit ''## C\<newline>d'']"
  unfolding merged_sections_def sample_document_def document.simps clean_sample split_sample
    merge_small_chunks_rec
  by (simp add: strip_def lstrip_def rstrip_def char_classes lit_def)

lemma length_chunks_sample: "length (chunk_document sample_document) = 2"
  by (simp add: chunk_document_def length_chunk_document_min merged_sample)

lemma table_sample: "clean_table_formatting (strip (lit ''## C\<newline>d'')) = lit ''## C\<newline>d''"
  by (simp add: table_eval strip_def lstrip_def rstrip_def char_classes)

theorem section_index_is_chunk_index_witness:
  "length (chunk_document sample_document) = 2 \<and>
   metadata (chunk_document sample_document ! 1) (lit ''section_index'') = Some (PInt 1) \<and>
   metadata (chunk_document sample_document ! 1) (lit ''chunk_index'') = Some (PInt 1)"
proof -
  have "1 < length (chunk_document sample_document)" by (simp add: length_chunks_sample)
  with section_index_is_chunk_index [of sample_document] length_chunks_sample
  show ?thesis by (metis of_nat_1)
qed

theorem section_index_after_merge_witness:
  "1 < length (chunk_document sample_document) \<and>
   metadata (chunk_document sample_document ! 1) (lit ''section_index'') = Some (PInt 1) \<and>
   page_content (chunk_document sample_document ! 1) = lit ''## C\<newline>d''"
proof -
  have l: "1 < length (chunk_document sample_document)" by (simp add: length_chunks_sample)
  from section_index_after_merge [OF l] l show ?thesis
    by (simp add: merged_sample table_sample)
qed

text \<open>
  Claim C2 as stated fails: on the sample document the section \<open>## C\<close> is at position 2
  of the section sequence before the merge, and its chunk carries \<open>section_index\<close> 1.
\<close>

theorem section_index_premerge_counterexample:
  "split_by_headers_manual (clean_text (page_content sample_document)) ! 2 = lit ''## C\<newline>d'' \<and>
   page_content (chunk_document sample_document ! 1) = lit ''## C\<newline>d'' \<and>
   metadata (chunk_document sample_document ! 1) (lit ''section_index'') = Some (PInt 1) \<and>
   metadata (chunk_document sample_document ! 1) (lit ''section_index'') \<noteq> Some (PInt 2)"
proof -
  have k: "1 < length (chunk_document_min 100 sample_document)"
    using length_chunks_sample by (simp add: chunk_document_def)
  have a: "split_by_headers_manual (clean_text (page_content sample_document)) ! 2 = lit ''## C\<newline>d''"
    unfolding sample_document_def document.simps clean_sample split_sample by simp
  have b: "page_content (chunk_document sample_document ! 1) = lit ''## C\<newline>d''"
    unfolding chunk_document_def chunk_document_min_indices(3) [OF k] merged_sample
    by (simp add: table_sample)
  have c: "metadata (chunk_document sample_document ! 1) (lit ''section_index'') = Some (PInt 1)"
    unfolding chunk_document_def chunk_document_min_indices(1) [OF k] by simp
  from a b c show ?thesis by simp
qed

subsection \<open>The fixture of the end-to-end scenario\<close>

lemma clean_fixture: "clean_text fixture_text = fixture_text"
  by (simp add: fixture_text_def clean_eval)

lemma split_fixture:
  "split_by_headers_manual fixture_text =
     [lit ''Intro line.'', lit ''# Section One\<newline>Short.'',
      lit ''## Sub\<newline>This is a longer paragraph exceeding the minimum character threshold easily.'']"
  by (simp add: fixture_text_def split_eval)

lemma merged_fixture:
  "merged_sections 20 fixture_document =
     [lit ''Intro line.\<newline>\<newline># Section One\<newline>Short.'',
      lit ''## Sub\<newline>This is a longer paragraph exceeding the minimum character threshold easily.'']"
  "merged_sections 100 fixture_document =
     [lit ''Intro line.\<newline>\<newline># Section One\<newline>Short.'',
      lit ''## Sub\<newline>This is a longer paragraph exceeding the minimum character threshold easily.'']"
  unfolding merged_sections_def fixture_document_def document.simps clean_fixture split_fixture
    merge_small_chunks_rec
  by (simp_all add: strip_def lstrip_def rstrip_def char_classes lit_def)

lemma table_fixture:
  "clean_table_formatting (strip (lit ''Intro line.\<newline>\<newline># Section One\<newline>Short.'')) =
     lit ''Intro line.\<newline>\<newline># Section One\<newline>Short.''"
  "clean_table_formatting (strip (lit ''## Sub\<newline>This is a longer paragraph exceeding the minimum character threshold easily.'')) =
     lit ''## Sub\<newline>This is a longer paragraph exceeding the minimum character threshold easily.''"
  by (simp_all add: table_eval strip_def lstrip_def rstrip_def char_classes)

lemma contents_fixture:
  assumes "merged_sections m fixture_document =
     [lit ''Intro line.\<newline>\<newline># Section One\<newline>Short.'',
      lit ''## Sub\<newline>This is a longer paragraph exceeding the minimum character threshold easily.'']"
  shows "map page_content (chunk_document_min m fixture_document) =
     [lit ''Intro line.\<newline>\<newline># Section One\<newline>Short.'',
      lit ''## Sub\<newline>This is a longer paragraph exceeding the minimum character threshold easily.'']"
proof -
  let ?c = "chunk_document_min m fixture_document"
  have l: "length ?c = 2" by (simp add: length_chunk_document_min assms)
  then have k: "0 < length ?c" "1 < length ?c" by simp_all
  have "map page_content ?c = [page_content (?c ! 0), page_content (?c ! 1)]"
    using list2_nth [of "map page_content ?c"] l by simp
  then show ?thesis
    unfolding chunk_document_min_indices(3) [OF k(1)] chunk_document_min_indices(3) [OF k(2)] assms
    by (simp add: table_fixture)
qed

text \<open>
  Claim C4, as amended.  On the fixture, with the threshold 20 (and also with the default
  100 that \<open>chunk_document\<close> uses), the pipeline produces exactly two chunks: chunk 0 is the
  preamble \<open>Intro line.\<close> (11 code points, below the threshold) merged with the section
  \<open># Section One\<close> that follows it, and chunk 1 is the subsection \<open>## Sub\<close>, emitted on its
  own as the last section.
\<close>

theorem fixture_chunks:
  "map page_content (chunk_document_min 20 fixture_document) =
     [lit ''Intro line.\<newline>\<newline># Section One\<newline>Short.'',
      lit ''## Sub\<newline>This is a longer paragraph exceeding the minimum character threshold easily.''] \<and>
   map page_content (chunk_document fixture_document) =
     [lit ''Intro line.\<newline>\<newline># Section One\<newline>Short.'',
      lit ''## Sub\<newline>This is a longer paragraph exceeding the minimum character threshold easily.''] \<and>
   lit ''Intro line.\<newline>\<newline># Section One\<newline>Short.'' =
     lit ''Intro line.'' @ [NL, NL] @ lit ''# Section One\<newline>Short.'' \<and>
   length (strip (lit ''Intro line.'')) = 11"
  unfolding chunk_document_def
  using contents_fixture [OF merged_fixture(1)] contents_fixture [OF merged_fixture(2)]
  by (simp add: strip_def lstrip_def rstrip_def char_classes lit_def)

text \<open>
  Claim C4 as stated fails: chunk 0 is not the merge of \<open># Section One\<close> with \<open>## Sub\<close>, the
  subsection is emitted as a chunk of its own, and \<open># Section One\nShort.\<close> has 20 code
  points, which is not below the threshold 20.
\<close>

theorem fixture_chunks_counterexample:
  "hd (map page_content (chunk_document_min 20 fixture_document)) \<noteq>
     lit ''# Section One\<newline>Short.'' @ [NL, NL] @
     lit ''## Sub\<newline>This is a longer paragraph exceeding the minimum character threshold easily.'' \<and>
   lit ''## Sub\<newline>This is a longer paragraph exceeding the minimum character threshold easily.''
     \<in> set (map page_content (chunk_document_min 20 fixture_document)) \<and>
   \<not> int (length (strip (lit ''# Section One\<newline>Short.''))) < 20"
  unfolding contents_fixture [OF merged_fixture(1)]
  by (simp add: strip_def lstrip_def rstrip_def char_classes lit_def)

section \<open>No newline is left after \<open></tr>\<close>\<close>

lemma lit_gt_lt: "lit ''>'' = [62]" "lit ''<'' = [60]"
  by (simp_all add: lit_def)

lemma not_space_gt_lt: "\<not> is_space 62" "\<not> is_space 60"
  by (simp_all add: is_space_def)

lemma gt_tight_Cons:
  "gt_tight (c # t) \<longleftrightarrow> (t \<noteq> [] \<longrightarrow> \<not> (c = 62 \<and> is_space (hd t))) \<and> gt_tight t"
  by (cases t) simp_all

lemma gt_tight_drop: "gt_tight t \<Longrightarrow> gt_tight (drop n t)"
proof (induction n arbitrary: t)
  case 0
  then show ?case by simp
next
  case (Suc n)
  then show ?case by (cases t) (simp_all add: gt_tight_Cons)
qed

lemma gt_tight_pair:
  "gt_tight t \<Longrightarrow> t = a @ 62 # d # b \<Longrightarrow> \<not> is_space d"
proof (induction a arbitrary: t)
  case Nil
  then show ?case by simp
next
  case (Cons x a)
  then have "gt_tight (a @ 62 # d # b)" by (simp add: gt_tight_Cons)
  from Cons.IH [OF this refl] show ?case .
qed

subsection \<open>The substitution of \<open>>\s+\<close>\<close>

lemma pat_after_gt_Cons:
  "pat_after_gt (c # cs) =
     (if c = 62 \<and> cs \<noteq> [] \<and> is_space (hd cs)
      then Some (Suc (length (takeWhile is_space cs))) else None)"
proof (cases cs)
  case Nil
  then show ?thesis by (simp add: pat_after_gt_def lit_gt_lt m_plus_def)
next
  case (Cons d ds)
  then show ?thesis
    by (simp add: pat_after_gt_def lit_gt_lt m_plus_def m_star_end is_cp_def)
qed

lemma sub_after_gt_Cons:
  "sub_after_gt (c # cs) =
     (if c = 62 \<and> cs \<noteq> [] \<and> is_space (hd cs)
      then 62 # sub_after_gt (dropWhile is_space cs) else c # sub_after_gt cs)"
proof -
  have "length (takeWhile is_space cs) \<le> length cs" by (rule length_takeWhile_le)
  then show ?thesis
    by (simp add: re_sub.simps(2) pat_after_gt_Cons lit_gt_lt dropWhile_eq_drop)
qed

lemma sub_after_gt_hd:
  "(sub_after_gt t = [] \<longleftrightarrow> t = []) \<and> (t \<noteq> [] \<longrightarrow> hd (sub_after_gt t) = hd t)"
  by (cases t) (simp_all add: sub_after_gt_Cons)

lemma gt_tight_sub_after_gt: "gt_tight (sub_after_gt y)"
proof (induction "length y" arbitrary: y rule: less_induct)
  case less
  show ?case
  proof (cases y)
    case Nil
    then show ?thesis by simp
  next
    case (Cons c cs)
    show ?thesis
    proof (cases "c = 62 \<and> cs \<noteq> [] \<and> is_space (hd cs)")
      case True
      let ?r = "dropWhile is_space cs"
      have "length ?r < length y" using Cons by (simp add: length_dropWhile_le le_imp_less_Suc)
      then have t: "gt_tight (sub_after_gt ?r)" by (rule less.hyps)
      have "?r \<noteq> [] \<longrightarrow> \<not> is_space (hd ?r)" by (simp add: hd_dropWhile)
      with sub_after_gt_hd [of ?r]
      have "sub_after_gt ?r \<noteq> [] \<longrightarrow> \<not> is_space (hd (sub_after_gt ?r))" by auto
      then have n: "sub_after_gt ?r \<noteq> [] \<longrightarrow> \<not> is_space (hd (sub_after_gt ?r))" .
      have eq: "sub_after_gt y = 62 # sub_after_gt ?r"
        unfolding Cons sub_after_gt_Cons by (rule if_P [OF True])
      show ?thesis unfolding eq gt_tight_Cons using t n by blast
    next
      case False
      have t: "gt_tight (sub_after_gt cs)" using Cons by (intro less.hyps) simp
      from False sub_after_gt_hd [of cs]
      have n: "sub_after_gt cs \<noteq> [] \<longrightarrow> \<not> (c = 62 \<and> is_space (hd (sub_after_gt cs)))" by auto
      have eq: "sub_after_gt y = c # sub_after_gt cs"
        unfolding Cons sub_after_gt_Cons by (rule if_not_P [OF False])
      show ?thesis unfolding eq gt_tight_Cons using t n by blast
    qed
  qed
qed

subsection \<open>The substitution of \<open>\s+<\<close>\<close>

lemma m_star_space_lt:
  "m_star is_space (m_str (lit ''<'') m_end) cs =
     (if dropWhile is_space cs \<noteq> [] \<and> hd (dropWhile is_space cs) = 60
      then Some (Suc (length (takeWhile is_space cs))) else None)"
proof (induction cs)
  case Nil
  show ?case by (simp add: lit_gt_lt)
next
  case (Cons c cs)
  show ?case
  proof (cases "is_space c")
    case True
    then have "c \<noteq> 60" using not_space_gt_lt by auto
    with True Cons show ?thesis by (simp add: lit_gt_lt is_cp_def)
  next
    case False
    then show ?thesis by (auto simp: lit_gt_lt is_cp_def m_end_def not_space_gt_lt)
  qed
qed

lemma pat_before_lt_Cons:
  "pat_before_lt (c # cs) =
     (if is_space c \<and> dropWhile is_space cs \<noteq> [] \<and> hd (dropWhile is_space cs) = 60
      then Some (Suc (Suc (length (takeWhile is_space cs)))) else None)"
  by (simp add: pat_before_lt_def m_plus_def m_star_space_lt)

lemma sub_before_lt_Cons:
  "sub_before_lt (c # cs) =
     (if is_space c \<and> dropWhile is_space cs \<noteq> [] \<and> hd (dropWhile is_space cs) = 60
      then 60 # sub_before_lt (tl (dropWhile is_space cs)) else c # sub_before_lt cs)"
proof (cases "is_space c \<and> dropWhile is_space cs \<noteq> [] \<and> hd (dropWhile is_space cs) = 60")
  case False
  have "pat_before_lt (c # cs) = None"
    unfolding pat_before_lt_Cons by (rule if_not_P [OF False])
  then have "sub_before_lt (c # cs) = c # sub_before_lt cs" by (simp add: re_sub.simps(2))
  then show ?thesis by (simp only: if_not_P [OF False])
next
  case True
  let ?n = "length (takeWhile is_space cs)"
  have d: "dropWhile is_space cs = drop ?n cs" by (rule dropWhile_eq_drop)
  with True have "drop ?n cs \<noteq> []" by simp
  then have lt: "?n < length cs" by simp
  have dr: "drop (Suc (Suc ?n)) (c # cs) = tl (dropWhile is_space cs)"
    unfolding d by (simp add: drop_Suc drop_tl)
  have m: "pat_before_lt (c # cs) = Some (Suc (Suc ?n))"
    unfolding pat_before_lt_Cons by (rule if_P [OF True])
  have "sub_before_lt (c # cs) =
      lit ''<'' @ sub_before_lt (drop (Suc (Suc ?n)) (c # cs))"
    using lt by (simp add: re_sub.simps(2) m del: drop_Suc_Cons)
  then have "sub_before_lt (c # cs) = 60 # sub_before_lt (tl (dropWhile is_space cs))"
    unfolding dr by (simp add: lit_gt_lt)
  then show ?thesis by (simp only: if_P [OF True])
qed

lemma sub_before_lt_hd:
  "t \<noteq> [] \<Longrightarrow> \<not> is_space (hd t) \<Longrightarrow> sub_before_lt t \<noteq> [] \<and> hd (sub_before_lt t) = hd t"
  by (cases t) (simp_all add: sub_before_lt_Cons)

lemma gt_tight_sub_before_lt: "gt_tight y \<Longrightarrow> gt_tight (sub_before_lt y)"
proof (induction "length y" arbitrary: y rule: less_induct)
  case less
  show ?case
  proof (cases y)
    case Nil
    then show ?thesis by simp
  next
    case (Cons c cs)
    with less.prems have cs: "gt_tight cs"
      and adj: "cs \<noteq> [] \<longrightarrow> \<not> (c = 62 \<and> is_space (hd cs))"
      by (simp_all add: gt_tight_Cons)
    show ?thesis
    proof (cases "is_space c \<and> dropWhile is_space cs \<noteq> [] \<and> hd (dropWhile is_space cs) = 60")
      case True
      let ?r = "tl (dropWhile is_space cs)"
      have "gt_tight (dropWhile is_space cs)"
        unfolding dropWhile_eq_drop using cs by (rule gt_tight_drop)
      then have "gt_tight ?r" using True by (cases "dropWhile is_space cs") (simp_all add: gt_tight_Cons)
      moreover have "length ?r < length y"
        using Cons length_dropWhile_le [of is_space cs] True by simp
      ultimately have t: "gt_tight (sub_before_lt ?r)" by (intro less.hyps)
      have eq: "sub_before_lt y = 60 # sub_before_lt ?r"
        unfolding Cons sub_before_lt_Cons by (rule if_P [OF True])
      show ?thesis unfolding eq gt_tight_Cons using t by simp
    next
      case False
      have t: "gt_tight (sub_before_lt cs)" using Cons cs by (intro less.hyps) simp_all
      have "sub_before_lt cs \<noteq> [] \<longrightarrow> \<not> (c = 62 \<and> is_space (hd (sub_before_lt cs)))"
      proof (cases "c = 62 \<and> cs \<noteq> []")
        case True
        with adj have "\<not> is_space (hd cs)" by simp
        with True sub_before_lt_hd [of cs] show ?thesis by simp
      next
        case f: False
        show ?thesis
        proof (cases cs)
          case Nil
          then show ?thesis by simp
        next
          case (Cons d ds)
          with f show ?thesis by simp
        qed
      qed
      then have n: "sub_before_lt cs \<noteq> [] \<longrightarrow> \<not> (c = 62 \<and> is_space (hd (sub_before_lt cs)))" .
      have eq: "sub_before_lt y = c # sub_before_lt cs"
        unfolding Cons sub_before_lt_Cons by (rule if_not_P [OF False])
      show ?thesis unfolding eq gt_tight_Cons using t n by blast
    qed
  qed
qed

lemma clean_table_block_tight: "gt_tight (clean_table_block t)"
  unfolding clean_table_block_def Let_def
  by (intro gt_tight_sub_before_lt gt_tight_sub_after_gt)

lemma clean_table_block_no_tr_newline:
  "clean_table_block t \<noteq> a @ lit ''</tr>'' @ NL # b"
proof
  assume "clean_table_block t = a @ lit ''</tr>'' @ NL # b"
  then have "clean_table_block t = (a @ lit ''</tr'') @ 62 # NL # b" by (simp add: lit_def)
  from gt_tight_pair [OF clean_table_block_tight this] show False
    by (simp add: is_space_def)
qed

section \<open>\<open>_clean_table_formatting\<close> on the samples\<close>

lemmas table_block_eval = clean_table_formatting_def clean_table_block_def re_sub.simps(2)
  pat_table_def pat_tag_gap_def pat_tr_gap_def pat_after_gt_def pat_before_lt_def
  m_plus_def m_end_def char_classes lit_def

text \<open>
  Claim C1.  After \<open>_clean_table_formatting\<close>, no \<open></tr>\<close> of a table is followed by a
  newline: the second substitution of \<open>clean_table_block\<close> leaves one newline after
  \<open></tr>\<close>, and the third one, which removes all whitespace after \<open>>\<close>, removes it again.
  This holds for every table block, and is shown on two texts.
\<close>

theorem tr_newline_removed:
  "(\<forall>a b. clean_table_block t \<noteq> a @ lit ''</tr>'' @ NL # b) \<and>
   clean_table_formatting table_text = lit ''<table><tr><td>a</td></tr><tr><td>b</td></tr></table>'' \<and>
   re_sub pat_tr_gap (\<lambda>_. lit ''</tr>'' @ [NL])
     (re_sub pat_tag_gap (\<lambda>_. lit ''><'') (lit ''<table><tr><td>a</td></tr> \<newline> note</table>'')) =
     lit ''<table><tr><td>a</td></tr>\<newline>note</table>'' \<and>
   clean_table_formatting table_note_text = lit ''x <table><tr><td>a</td></tr>note</table> y''"
  using clean_table_block_no_tr_newline [of t]
  by (simp add: table_text_def table_note_text_def table_block_eval)

section \<open>Properties of \<open>chunk_all_documents\<close>\<close>




lemma faulty_body_bad: "faulty_body bad_document = Inl (Exception (lit ''stage failure''))"
  by (simp add: faulty_body_def bad_document_def)

lemma faulty_body_sample: "faulty_body sample_document = Inr (chunk_document sample_document)"
  by (simp add: faulty_body_def sample_document_def sample_doc_def lit_def)


text \<open>
  In a batch of a document that raises followed by a document that can be chunked, the
  chunks of the second document are not produced; the batch ends with the exception.
\<close>

theorem later_chunks_lost:
  "snd (chunk_all_documents_with faulty_body [bad_document, sample_document] []) =
     Inl (Exception (lit ''stage failure'')) \<and>
   faulty_body sample_document = Inr (chunk_document sample_document) \<and>
   chunk_document sample_document \<noteq> [] \<and>
   snd (run_full_pipeline_with (Inr [bad_document, sample_document]) faulty_body Inr
          (\<lambda>documents. Inr True) []) = Inl (Exception (lit ''stage failure''))"
proof -
  have "chunk_document sample_document \<noteq> []"
    using length_chunks_sample by auto
  then show ?thesis
    by (simp add: chunk_all_documents_with_def chunk_document_try_def faulty_body_bad
        faulty_body_sample run_full_pipeline_with_def)
qed

section \<open>Locality of \<open>_clean_table_formatting\<close>\<close>

subsection \<open>The lazy star\<close>

lemma m_lazy_any_Cons:
  "m_lazy any_cp k (c # cs) =
     (case k (c # cs) of Some n \<Rightarrow> Some n | None \<Rightarrow> map_option Suc (m_lazy any_cp k cs))"
proof -
  have "any_cp c" by (simp add: any_cp_def)
  then show ?thesis by simp
qed

lemma m_lazy_any_none:
  "m_lazy any_cp k cs = None \<longleftrightarrow> (\<forall>j\<le>length cs. k (drop j cs) = None)"
proof (induction cs)
  case Nil
  show ?case by simp
next
  case (Cons c cs)
  have "(\<forall>j\<le>length (c # cs). k (drop j (c # cs)) = None) \<longleftrightarrow>
        k (c # cs) = None \<and> (\<forall>j\<le>length cs. k (drop j cs) = None)"
  proof
    assume h: "\<forall>j\<le>length (c # cs). k (drop j (c # cs)) = None"
    have "k (c # cs) = None" using h [rule_format, of 0] by simp
    moreover have "\<forall>j\<le>length cs. k (drop j cs) = None"
    proof (intro allI impI)
      fix j assume "j \<le> length cs"
      then show "k (drop j cs) = None" using h [rule_format, of "Suc j"] by simp
    qed
    ultimately show "k (c # cs) = None \<and> (\<forall>j\<le>length cs. k (drop j cs) = None)" ..
  next
    assume h: "k (c # cs) = None \<and> (\<forall>j\<le>length cs. k (drop j cs) = None)"
    show "\<forall>j\<le>length (c # cs). k (drop j (c # cs)) = None"
    proof (intro allI impI)
      fix j assume j: "j \<le> length (c # cs)"
      show "k (drop j (c # cs)) = None"
      proof (cases j)
        case 0
        with h show ?thesis by simp
      next
        case (Suc j')
        with j h show ?thesis by simp
      qed
    qed
  qed
  moreover have "m_lazy any_cp k (c # cs) = None \<longleftrightarrow>
        k (c # cs) = None \<and> m_lazy any_cp k cs = None"
    by (cases "k (c # cs)") (simp_all add: m_lazy_any_Cons del: m_lazy.simps)
  ultimately show ?case using Cons.IH by simp
qed

lemma m_lazy_any_some:
  "m_lazy any_cp k cs = Some n \<Longrightarrow> \<exists>j\<le>length cs. j \<le> n \<and> k (drop j cs) = Some (n - j)"
proof (induction cs arbitrary: n)
  case Nil
  then show ?case by simp
next
  case (Cons c cs)
  show ?case
  proof (cases "k (c # cs)")
    case (Some r)
    with Cons.prems have "r = n" by (simp add: m_lazy_any_Cons del: m_lazy.simps)
    with Some show ?thesis by (intro exI [of _ 0]) simp
  next
    case None
    with Cons.prems obtain n' where n': "m_lazy any_cp k cs = Some n'" "n = Suc n'"
      by (cases "m_lazy any_cp k cs") (simp_all add: m_lazy_any_Cons del: m_lazy.simps)
    from Cons.IH [OF n'(1)] obtain j where
      j: "j \<le> length cs" "j \<le> n'" "k (drop j cs) = Some (n' - j)" by blast
    with n'(2) show ?thesis by (intro exI [of _ "Suc j"]) simp
  qed
qed

subsection \<open>The table pattern\<close>

lemma length_table_tags: "length (lit ''<table>'') = 7" "length (lit ''</table>'') = 8"
  by (simp_all add: lit_def)

lemma m_str_end:
  "m_str s m_end cs = (if take (length s) cs = s then Some (length s) else None)"
  by (simp add: m_str_eq m_end_def)

lemma pat_table_sound:
  assumes "pat_table u = Some n"
  shows "0 < n \<and> n \<le> length u \<and> (\<exists>mid. take n u = lit ''<table>'' @ mid @ lit ''</table>'')"
proof -
  let ?K = "m_lazy any_cp (m_str (lit ''</table>'') m_end)"
  from assms have t: "take 7 u = lit ''<table>''"
    and "map_option (\<lambda>n. 7 + n) (?K (drop 7 u)) = Some n"
    unfolding pat_table_def m_str_eq [of "lit ''<table>''"] length_table_tags
    by (simp_all split: if_splits)
  then obtain n' where n': "?K (drop 7 u) = Some n'" "n = 7 + n'" by auto
  from m_lazy_any_some [OF n'(1)] obtain j where
    j: "j \<le> n'" "m_str (lit ''</table>'') m_end (drop j (drop 7 u)) = Some (n' - j)" by blast
  from j(2) have c: "take 8 (drop j (drop 7 u)) = lit ''</table>''" and "n' - j = 8"
    unfolding m_str_end length_table_tags by (simp_all split: if_splits)
  with j(1) n'(2) have n: "n = 7 + (j + 8)" by simp
  have "length (take 8 (drop j (drop 7 u))) = 8" unfolding c by (rule length_table_tags)
  then have len: "n \<le> length u" unfolding n by simp
  have "take n u = take 7 u @ take j (drop 7 u) @ take 8 (drop j (drop 7 u))"
    unfolding n by (simp only: take_add)
  then have "take n u = lit ''<table>'' @ take j (drop 7 u) @ lit ''</table>''"
    unfolding t c .
  with len n show ?thesis by auto
qed

lemma m_str_append: "m_str s k (s @ x) = map_option (\<lambda>n. length s + n) (k x)"
  by (simp add: m_str_eq)

lemma pat_table_complete: "pat_table (lit ''<table>'' @ b @ lit ''</table>'' @ c) \<noteq> None"
proof -
  let ?k = "m_str (lit ''</table>'') m_end"
  have "?k (lit ''</table>'' @ c) \<noteq> None"
    unfolding m_str_append by (simp add: m_end_def)
  then have "?k (drop (length b) (b @ lit ''</table>'' @ c)) \<noteq> None" by simp
  moreover have "length b \<le> length (b @ lit ''</table>'' @ c)" by simp
  ultimately have "\<not> (\<forall>j\<le>length (b @ lit ''</table>'' @ c).
      ?k (drop j (b @ lit ''</table>'' @ c)) = None)"
    by (intro notI) (drule spec [of _ "length b"], simp)
  then have "m_lazy any_cp ?k (b @ lit ''</table>'' @ c) \<noteq> None"
    unfolding m_lazy_any_none .
  then show ?thesis
    unfolding pat_table_def m_str_append by simp
qed

subsection \<open>A text without a table span\<close>

lemma no_span_unchanged:
  assumes "\<not> (\<exists>a b c. text = a @ lit ''<table>'' @ b @ lit ''</table>'' @ c)"
  shows "clean_table_formatting text = text"
  unfolding clean_table_formatting_def
proof (rule re_sub_fixed)
  fix a s n
  assume t: "text = a @ s" and m: "pat_table s = Some n"
  from pat_table_sound [OF m] obtain mid where
    "take n s = lit ''<table>'' @ mid @ lit ''</table>''" by blast
  then have "s = lit ''<table>'' @ mid @ lit ''</table>'' @ drop n s"
    using append_take_drop_id [of n s] by (metis append.assoc)
  with t assms have False by blast
  then show "clean_table_block (take n s) = take n s" ..
qed

subsection \<open>Occurrences\<close>

lemma take_prefix: "n \<le> length x \<Longrightarrow> take n (x @ y) = take n x"
  by simp

lemma drop_prefix: "n \<le> length x \<Longrightarrow> drop n (x @ y) = drop n x @ y"
  by simp

lemma occurs_iff: "occurs s t \<longleftrightarrow> (\<exists>a b. t = a @ s @ b)"
proof
  show "occurs s t \<Longrightarrow> \<exists>a b. t = a @ s @ b"
  proof (induction t)
    case Nil
    then show ?case by simp
  next
    case (Cons c cs)
    from Cons.prems consider "take (length s) (c # cs) = s" | "occurs s cs" by auto
    then show ?case
    proof cases
      case 1
      have "c # cs = [] @ take (length s) (c # cs) @ drop (length s) (c # cs)" by simp
      then have "c # cs = [] @ s @ drop (length s) (c # cs)" unfolding 1 .
      then show ?thesis by blast
    next
      case 2
      from Cons.IH [OF 2] obtain a b where "cs = a @ s @ b" by blast
      then have "c # cs = (c # a) @ s @ b" by simp
      then show ?thesis by blast
    qed
  qed
next
  assume "\<exists>a b. t = a @ s @ b"
  then obtain a b where t: "t = a @ s @ b" by blast
  show "occurs s t" unfolding t
  proof (induction a)
    case Nil
    show ?case
    proof (cases "s @ b")
      case Nil
      then show ?thesis by simp
    next
      case (Cons y ys)
      have "take (length s) (s @ b) = s" by simp
      then have "take (length s) (y # ys) = s" unfolding Cons .
      then show ?thesis unfolding append_Nil Cons occurs.simps by (rule disjI1)
    qed
  next
    case (Cons x a)
    then show ?case by simp
  qed
qed

lemma occurs_append: "occurs s y \<Longrightarrow> occurs s (x @ y)"
  unfolding occurs_iff by (metis append.assoc)

lemma occurs_first:
  assumes "s \<noteq> []" "occurs s t"
  shows "\<exists>a b. t = a @ s @ b \<and> \<not> occurs s a"
  using assms(2)
proof (induction t)
  case Nil
  with assms(1) show ?case by simp
next
  case (Cons c cs)
  show ?case
  proof (cases "take (length s) (c # cs) = s")
    case True
    have "c # cs = [] @ take (length s) (c # cs) @ drop (length s) (c # cs)" by simp
    then have "c # cs = [] @ s @ drop (length s) (c # cs)" unfolding True .
    moreover have "\<not> occurs s []" using assms(1) by simp
    ultimately show ?thesis by blast
  next
    case False
    with Cons.prems have "occurs s cs" by simp
    from Cons.IH [OF this] obtain a b where cs: "cs = a @ s @ b" and n: "\<not> occurs s a" by blast
    have "take (length s) (c # a) \<noteq> s"
    proof
      assume e: "take (length s) (c # a) = s"
      have "length (take (length s) (c # a)) = length s" unfolding e ..
      then have "length s \<le> length (c # a)" by simp
      then have "take (length s) ((c # a) @ s @ b) = take (length s) (c # a)"
        by (rule take_prefix)
      moreover have "c # cs = (c # a) @ s @ b" using cs by simp
      ultimately have "take (length s) (c # cs) = s" using e by (simp only:)
      with False show False ..
    qed
    with n have "\<not> occurs s (c # a)" by simp
    moreover have "c # cs = (c # a) @ s @ b" using cs by simp
    ultimately show ?thesis by blast
  qed
qed

text \<open>A tag does not overlap the start of a later one: the \<open><\<close> occurs in it only once.\<close>

lemma no_straddle:
  assumes "take (length s) (x @ h # y) = s" "h \<notin> set (tl s)" "x \<noteq> []"
  shows "take (length s) x = s"
proof (cases "length s \<le> length x")
  case True
  with assms(1) show ?thesis by simp
next
  case False
  then have l: "length x < length s" by simp
  have "take (length s) (x @ h # y) = x @ take (length s - length x) (h # y)"
    using l by simp
  then have "s = x @ take (length s - length x) (h # y)" unfolding assms(1) .
  then have "drop (length x) s = take (length s - length x) (h # y)"
    by (metis append_eq_conv_conj)
  also have "\<dots> = h # take (length s - length x - 1) y"
    using l by (cases "length s - length x") simp_all
  finally have "h \<in> set (drop (length x) s)" by simp
  moreover have "set (drop (length x) s) \<subseteq> set (drop 1 s)"
    using assms(3) by (intro set_drop_subset_set_drop) (cases x, simp_all)
  ultimately have "h \<in> set (tl s)" by (auto simp: drop_Suc)
  with assms(2) show ?thesis by simp
qed

lemma tag_tails:
  "60 \<notin> set (tl (lit ''<table>''))" "60 \<notin> set (tl (lit ''</table>''))"
  "lit ''<table>'' = 60 # tl (lit ''<table>'')" "lit ''</table>'' = 60 # tl (lit ''</table>'')"
  by (simp_all add: lit_def)

lemma has_table_span_iff:
  "has_table_span t \<longleftrightarrow> (\<exists>a b c. t = a @ lit ''<table>'' @ b @ lit ''</table>'' @ c)"
proof
  show "has_table_span t \<Longrightarrow> \<exists>a b c. t = a @ lit ''<table>'' @ b @ lit ''</table>'' @ c"
  proof (induction t)
    case Nil
    then show ?case by simp
  next
    case (Cons x xs)
    from Cons.prems consider
      "take 7 (x # xs) = lit ''<table>''" "occurs (lit ''</table>'') (drop 7 (x # xs))"
      | "has_table_span xs" by auto
    then show ?case
    proof cases
      case 1
      from 1(2) obtain b c where d: "drop 7 (x # xs) = b @ lit ''</table>'' @ c"
        unfolding occurs_iff by blast
      have "x # xs = take 7 (x # xs) @ drop 7 (x # xs)" by simp
      then have "x # xs = [] @ lit ''<table>'' @ b @ lit ''</table>'' @ c"
        unfolding 1(1) d by simp
      then show ?thesis by blast
    next
      case 2
      from Cons.IH [OF 2] obtain a b c where
        "xs = a @ lit ''<table>'' @ b @ lit ''</table>'' @ c" by blast
      then have "x # xs = (x # a) @ lit ''<table>'' @ b @ lit ''</table>'' @ c" by simp
      then show ?thesis by blast
    qed
  qed
next
  assume "\<exists>a b c. t = a @ lit ''<table>'' @ b @ lit ''</table>'' @ c"
  then obtain a b c where t: "t = a @ lit ''<table>'' @ b @ lit ''</table>'' @ c" by blast
  show "has_table_span t" unfolding t
  proof (induction a)
    case Nil
    have o: "occurs (lit ''</table>'') (b @ lit ''</table>'' @ c)"
      unfolding occurs_iff by blast
    obtain y ys where e: "lit ''<table>'' @ b @ lit ''</table>'' @ c = y # ys"
      by (cases "lit ''<table>'' @ b @ lit ''</table>'' @ c") (simp_all add: lit_def)
    have "take 7 (y # ys) = lit ''<table>''" "drop 7 (y # ys) = b @ lit ''</table>'' @ c"
      unfolding e [symmetric] by (simp_all add: length_table_tags)
    with o have "has_table_span (y # ys)" by (simp del: take_Cons_numeral drop_Cons_numeral)
    then show ?case unfolding e by simp
  next
    case (Cons x a)
    then show ?case by simp
  qed
qed

lemma leftmost_span:
  "has_table_span t \<Longrightarrow>
     \<exists>pre y. t = pre @ lit ''<table>'' @ y \<and> \<not> occurs (lit ''<table>'') pre \<and>
             occurs (lit ''</table>'') y"
proof (induction t)
  case Nil
  then show ?case by simp
next
  case (Cons x xs)
  show ?case
  proof (cases "take 7 (x # xs) = lit ''<table>'' \<and> occurs (lit ''</table>'') (drop 7 (x # xs))")
    case True
    then have 1: "take 7 (x # xs) = lit ''<table>''"
      and 2: "occurs (lit ''</table>'') (drop 7 (x # xs))" by blast+
    have "take 7 (x # xs) @ drop 7 (x # xs) = x # xs" by (rule append_take_drop_id)
    then have "x # xs = [] @ lit ''<table>'' @ drop 7 (x # xs)"
      unfolding 1 append_Nil by (rule sym)
    moreover have "\<not> occurs (lit ''<table>'') []" by (simp add: lit_def)
    ultimately show ?thesis using 2 by blast
  next
    case False
    have "has_table_span xs" using Cons.prems False unfolding has_table_span.simps by blast
    from Cons.IH [OF this] obtain pre y where
      xs: "xs = pre @ lit ''<table>'' @ y" and n: "\<not> occurs (lit ''<table>'') pre"
      and o: "occurs (lit ''</table>'') y" by blast
    have "take 7 (x # pre) \<noteq> lit ''<table>''"
    proof
      assume e: "take 7 (x # pre) = lit ''<table>''"
      have "length (take 7 (x # pre)) = 7" unfolding e by (rule length_table_tags)
      then have l: "7 \<le> length (x # pre)" by simp
      have c: "x # xs = (x # pre) @ lit ''<table>'' @ y" using xs by simp
      have "take 7 ((x # pre) @ lit ''<table>'' @ y) = take 7 (x # pre)"
        using l by (rule take_prefix)
      then have 1: "take 7 (x # xs) = lit ''<table>''" using e c by (simp only:)
      have "drop 7 ((x # pre) @ lit ''<table>'' @ y) = drop 7 (x # pre) @ lit ''<table>'' @ y"
        using l by (rule drop_prefix)
      then have d: "drop 7 (x # xs) = drop 7 (x # pre) @ lit ''<table>'' @ y"
        using c by (simp only:)
      have "occurs (lit ''</table>'') (lit ''<table>'' @ y)"
        using o by (rule occurs_append)
      then have "occurs (lit ''</table>'') (drop 7 (x # pre) @ lit ''<table>'' @ y)"
        by (rule occurs_append)
      then have "occurs (lit ''</table>'') (drop 7 (x # xs))" unfolding d .
      with 1 False show False by blast
    qed
    then have "\<not> occurs (lit ''<table>'') (x # pre)"
      using n by (simp add: length_table_tags)
    moreover have "x # xs = (x # pre) @ lit ''<table>'' @ y" using xs by simp
    ultimately show ?thesis using o by blast
  qed
qed

subsection \<open>The table pattern at a shortest span\<close>

lemma m_lazy_now: "k cs = Some n \<Longrightarrow> m_lazy p k cs = Some n"
  by (cases cs) simp_all

lemma m_lazy_first_close:
  assumes "\<not> occurs (lit ''</table>'') mid"
  shows "m_lazy any_cp (m_str (lit ''</table>'') m_end) (mid @ lit ''</table>'' @ rest) =
           Some (length mid + 8)"
  using assms
proof (induction mid)
  case Nil
  have "m_str (lit ''</table>'') m_end (lit ''</table>'' @ rest) = Some 8"
    unfolding m_str_append by (simp add: m_end_def length_table_tags)
  then show ?case by (simp add: m_lazy_now)
next
  case (Cons c mid)
  from Cons.prems have n: "take 8 (c # mid) \<noteq> lit ''</table>''"
    and n': "\<not> occurs (lit ''</table>'') mid"
    by (simp_all add: length_table_tags)
  have "take 8 ((c # mid) @ 60 # tl (lit ''</table>'') @ rest) \<noteq> lit ''</table>''"
  proof
    assume "take 8 ((c # mid) @ 60 # tl (lit ''</table>'') @ rest) = lit ''</table>''"
    then have "take (length (lit ''</table>'')) ((c # mid) @ 60 # tl (lit ''</table>'') @ rest) =
       lit ''</table>''" by (simp only: length_table_tags)
    from no_straddle [OF this tag_tails(2)] have "take (length (lit ''</table>'')) (c # mid) = lit ''</table>''"
      by simp
    with n show False by (simp only: length_table_tags)
  qed
  then have "take 8 (c # mid @ lit ''</table>'' @ rest) \<noteq> lit ''</table>''"
    using tag_tails(4) by (metis append_Cons)
  then have "m_str (lit ''</table>'') m_end (c # mid @ lit ''</table>'' @ rest) = None"
    unfolding m_str_end length_table_tags by simp
  then show ?case
    using Cons.IH [OF n'] by (simp add: m_lazy_any_Cons del: m_lazy.simps)
qed

lemma pat_table_shortest:
  assumes "shortest_span t"
  shows "pat_table (t @ rest) = Some (length t)"
proof -
  let ?mid = "span_inner t"
  from assms have t: "t = lit ''<table>'' @ ?mid @ lit ''</table>''"
    and n: "\<not> occurs (lit ''</table>'') ?mid" unfolding shortest_span_def by simp_all
  have p: "pat_table (lit ''<table>'' @ (?mid @ lit ''</table>'' @ rest)) = Some (7 + (length ?mid + 8))"
    unfolding pat_table_def m_str_append m_lazy_first_close [OF n] by (simp add: length_table_tags)
  have l: "length t = 7 + (length ?mid + 8)"
    using arg_cong [OF t, of length] by (simp add: length_table_tags)
  have e: "t @ rest = lit ''<table>'' @ (?mid @ lit ''</table>'' @ rest)"
    using t by (metis append.assoc)
  show ?thesis unfolding e by (simp only: p l)
qed

lemma re_sub_at_match:
  assumes "m u = Some n" "0 < n" "n \<le> length u"
  shows "re_sub m repl u = repl (take n u) @ re_sub m repl (drop n u)"
proof (cases u)
  case Nil
  with assms show ?thesis by simp
next
  case (Cons c cs)
  with assms show ?thesis by (simp add: re_sub.simps(2))
qed

lemma span_compacted:
  assumes "shortest_span t"
  shows "clean_table_formatting (t @ rest) = clean_table_block t @ clean_table_formatting rest"
proof -
  from assms have "t = lit ''<table>'' @ span_inner t @ lit ''</table>''"
    unfolding shortest_span_def by simp
  then have "0 < length t" by (metis append_is_Nil_conv length_greater_0_conv lit_nonempty(4))
  moreover have "length t \<le> length (t @ rest)" by simp
  ultimately have "re_sub pat_table clean_table_block (t @ rest) =
      clean_table_block (take (length t) (t @ rest)) @
      re_sub pat_table clean_table_block (drop (length t) (t @ rest))"
    using pat_table_shortest [OF assms, of rest]
    by (intro re_sub_at_match [where n = "length t"])
  then show ?thesis unfolding clean_table_formatting_def by simp
qed

lemma outside_copied:
  assumes "\<not> occurs (lit ''<table>'') s"
  shows "clean_table_formatting (s @ lit ''<table>'' @ y) =
           s @ clean_table_formatting (lit ''<table>'' @ y)"
  using assms
proof (induction s)
  case Nil
  show ?case by simp
next
  case (Cons c s)
  from Cons.prems have n: "take 7 (c # s) \<noteq> lit ''<table>''"
    and n': "\<not> occurs (lit ''<table>'') s"
    by (simp_all add: length_table_tags)
  have "take 7 ((c # s) @ 60 # tl (lit ''<table>'') @ y) \<noteq> lit ''<table>''"
  proof
    assume "take 7 ((c # s) @ 60 # tl (lit ''<table>'') @ y) = lit ''<table>''"
    then have "take (length (lit ''<table>'')) ((c # s) @ 60 # tl (lit ''<table>'') @ y) =
       lit ''<table>''" by (simp only: length_table_tags)
    from no_straddle [OF this tag_tails(1)] have "take (length (lit ''<table>'')) (c # s) = lit ''<table>''"
      by simp
    with n show False by (simp only: length_table_tags)
  qed
  then have "take 7 (c # s @ lit ''<table>'' @ y) \<noteq> lit ''<table>''"
    using tag_tails(3) by (metis append_Cons)
  then have "pat_table (c # s @ lit ''<table>'' @ y) = None"
    unfolding pat_table_def m_str_eq [of "lit ''<table>''"] length_table_tags by simp
  then have "clean_table_formatting (c # s @ lit ''<table>'' @ y) =
      c # clean_table_formatting (s @ lit ''<table>'' @ y)"
    unfolding clean_table_formatting_def by (simp add: re_sub.simps(2))
  with Cons.IH [OF n'] show ?case by simp
qed

lemma no_table_span_unchanged:
  assumes "\<not> has_table_span s"
  shows "clean_table_formatting s = s"
  using assms no_span_unchanged unfolding has_table_span_iff by blast

subsection \<open>Locality\<close>

lemma segmented_compacted:
  "segmented segments \<Longrightarrow>
     clean_table_formatting (concat (map source_text segments)) = concat (map compacted segments)"
proof (induction segments rule: segmented.induct)
  case 1
  show ?case by (simp add: clean_table_formatting_def)
next
  case (2 s)
  then show ?case by (simp add: no_table_span_unchanged)
next
  case (3 s t segments)
  then have s: "\<not> occurs (lit ''<table>'') s" and t: "shortest_span t"
    and r: "segmented segments" by simp_all
  let ?rest = "concat (map source_text segments)"
  from t obtain y where y: "t @ ?rest = lit ''<table>'' @ y"
    unfolding shortest_span_def by (metis append.assoc)
  have "clean_table_formatting (s @ t @ ?rest) = s @ clean_table_formatting (t @ ?rest)"
    unfolding y by (rule outside_copied [OF s])
  also have "\<dots> = s @ clean_table_block t @ clean_table_formatting ?rest"
    unfolding span_compacted [OF t] ..
  finally show ?case using 3(1) [OF r] by simp
next
  case (4 s s' segments)
  then show ?case by simp
next
  case (5 t segments)
  then have t: "shortest_span t" and r: "segmented segments" by simp_all
  show ?case using span_compacted [OF t] 5(1) [OF r] by simp
qed

lemma shortest_spanI:
  assumes "\<not> occurs (lit ''</table>'') mid"
  shows "shortest_span (lit ''<table>'' @ mid @ lit ''</table>'')"
proof -
  have "span_inner (lit ''<table>'' @ mid @ lit ''</table>'') = mid"
    unfolding span_inner_def by (simp add: length_table_tags)
  with assms show ?thesis unfolding shortest_span_def by simp
qed

lemma segmented_exists: "\<exists>segments. segmented segments \<and> concat (map source_text segments) = t"
proof (induction t rule: length_induct)
  case (1 t)
  show ?case
  proof (cases "has_table_span t")
    case False
    then have "segmented [Outside t] \<and> concat (map source_text [Outside t]) = t" by simp
    then show ?thesis by blast
  next
    case True
    from leftmost_span [OF True] obtain pre y where
      t: "t = pre @ lit ''<table>'' @ y" and p: "\<not> occurs (lit ''<table>'') pre"
      and o: "occurs (lit ''</table>'') y" by blast
    from occurs_first [OF lit_nonempty(5) o] obtain mid post where
      y: "y = mid @ lit ''</table>'' @ post" and m: "\<not> occurs (lit ''</table>'') mid" by blast
    let ?span = "lit ''<table>'' @ mid @ lit ''</table>''"
    have "length post < length t" unfolding t y by (simp add: length_table_tags)
    with 1 obtain segments where
      s: "segmented segments" "concat (map source_text segments) = post" by blast
    let ?segs = "Outside pre # Table_span ?span # segments"
    have "segmented ?segs" using p shortest_spanI [OF m] s(1) by simp
    moreover have "concat (map source_text ?segs) = t" unfolding t y using s(2) by simp
    ultimately show ?thesis by blast
  qed
qed

text \<open>
  Claim C9.  \<open>_clean_table_formatting\<close> changes only table spans.  Every text has a
  segmentation into the leftmost shortest spans \<open><table>...</table>\<close> and the maximal
  regions outside them; for every such segmentation the result is the same sequence of
  segments, every region outside the spans copied as it is and every span replaced by its
  compacted form; and a text that contains no table span is returned unchanged.
\<close>

theorem compact_tables_local:
  "(\<exists>segments. segmented segments \<and> concat (map source_text segments) = text) \<and>
   (\<forall>segments. segmented segments \<and> concat (map source_text segments) = text \<longrightarrow>
      clean_table_formatting text = concat (map compacted segments)) \<and>
   (\<not> (\<exists>a b c. text = a @ lit ''<table>'' @ b @ lit ''</table>'' @ c) \<longrightarrow>
      clean_table_formatting text = text)"
proof (intro conjI allI impI)
  show "\<exists>segments. segmented segments \<and> concat (map source_text segments) = text"
    by (rule segmented_exists)
next
  fix segments
  assume "segmented segments \<and> concat (map source_text segments) = text"
  then show "clean_table_formatting text = concat (map compacted segments)"
    using segmented_compacted [of segments] by auto
next
  assume "\<not> (\<exists>a b c. text = a @ lit ''<table>'' @ b @ lit ''</table>'' @ c)"
  then show "clean_table_formatting text = text" by (rule no_span_unchanged)
qed

lemma two_tables_segmented:
  "segmented two_tables_segments"
  "concat (map source_text two_tables_segments) = two_tables_text"
  by (simp_all add: two_tables_segments_def two_tables_text_def shortest_span_def span_inner_def
      lit_def)

lemma two_tables_compacted:
  "concat (map compacted two_tables_segments) =
     lit ''a  <table><tr></tr></table> > x < <table>b</table>  c''"
  by (simp add: two_tables_segments_def table_block_eval)

theorem compact_tables_local_witness:
  "segmented two_tables_segments \<and>
   concat (map source_text two_tables_segments) = two_tables_text \<and>
   clean_table_formatting two_tables_text =
     lit ''a  <table><tr></tr></table> > x < <table>b</table>  c'' \<and>
   \<not> (\<exists>a b c. lit ''plain  prose'' = a @ lit ''<table>'' @ b @ lit ''</table>'' @ c) \<and>
   clean_table_formatting (lit ''plain  prose'') = lit ''plain  prose''"
proof -
  have "clean_table_formatting two_tables_text = concat (map compacted two_tables_segments)"
    using compact_tables_local [of two_tables_text, THEN conjunct2, THEN conjunct1,
        rule_format, of two_tables_segments] two_tables_segmented
    by blast
  then have 1: "clean_table_formatting two_tables_text =
     lit ''a  <table><tr></tr></table> > x < <table>b</table>  c''"
    unfolding two_tables_compacted .
  have "\<not> has_table_span (lit ''plain  prose'')" by (simp add: lit_def)
  then have h: "\<not> (\<exists>a b c. lit ''plain  prose'' = a @ lit ''<table>'' @ b @ lit ''</table>'' @ c)"
    unfolding has_table_span_iff .
  from compact_tables_local [of "lit ''plain  prose''", THEN conjunct2, THEN conjunct2, THEN mp, OF h]
    1 h two_tables_segmented
  show ?thesis by blast
qed

end
